theory Spec2Isabelle
  imports Complex_Main
begin

section \<open>Machine integers and errors\<close>

text \<open>
  The plugin is C++: \<open>int\<close> is a 32-bit signed integer and signed overflow is undefined
  behaviour.  Values of type \<open>int\<close> are modelled as HOL integers; every arithmetic step of
  the source whose result can leave the 32-bit range is guarded by \<open>fits_int\<close>, and leaving
  the range is the outcome \<open>IntegerOverflow\<close>.  Container sizes are natural numbers.
  Values of type \<open>double\<close> and \<open>float\<close> are modelled as real numbers (exact
  arithmetic): rounding is outside this model.
\<close>

definition INT_MAX :: int where
  "INT_MAX = 2147483647"

definition INT_MIN :: int where
  "INT_MIN = - 2147483648"

definition fits_int :: "int \<Rightarrow> bool" where
  "fits_int x \<longleftrightarrow> INT_MIN \<le> x \<and> x \<le> INT_MAX"

text \<open>The operator \<open>/\<close> of C++ on integers rounds towards zero.\<close>

definition cdiv :: "int \<Rightarrow> int \<Rightarrow> int" where
  "cdiv a b = (if (a < 0) = (b < 0) then \<bar>a\<bar> div \<bar>b\<bar> else - (\<bar>a\<bar> div \<bar>b\<bar>))"

text \<open>
  Every \<open>throw\<close> of the sources is one constructor:
  \<^item> \<open>InvalidNumberOfSubsets\<close>: "Invalid number of subsets";
  \<^item> \<open>SubsetOutOfRange\<close>: "Subset out of range" (macro \<open>ASSERT_VALID_SUBSET\<close>);
  \<^item> \<open>IndexOutOfRange\<close>: "Index out of range" (macro \<open>ASSERT_VALID_INDEX\<close>);
  \<^item> \<open>ExceptionExists p1 p2\<close>: "SlicedPmeForce: There is already an exception for
    particles p1 and p2";
  \<^item> \<open>SliceAlreadyDefined\<close>: "A switching parameter has already been defined for this
    slice";
  \<^item> \<open>NoGlobalParameter name\<close>: "There is no global parameter called 'name'";
  \<^item> \<open>ParticlesChanged\<close>: "updateParametersInContext: The number of particles has
    changed";
  \<^item> \<open>ExceptionsChanged\<close>: "updateParametersInContext: The set of non-excluded
    exceptions has changed";
  \<^item> \<open>IntegerOverflow\<close>: no \<open>throw\<close>, but signed overflow (undefined behaviour);
  \<^item> \<open>OutOfBounds\<close>: no \<open>throw\<close>, but a write outside a vector (undefined behaviour).
\<close>

datatype error =
    InvalidNumberOfSubsets
  | SubsetOutOfRange
  | IndexOutOfRange
  | ExceptionExists int int
  | SliceAlreadyDefined
  | NoGlobalParameter string
  | ParticlesChanged
  | ExceptionsChanged
  | IntegerOverflow
  | OutOfBounds

section \<open>The slice index\<close>

text \<open>
  \<open>SlicedPmeForce::addSwitchingParameter\<close> and \<open>setSwitchingParameter\<close> compute
  \<^verbatim>\<open>int i = std::min(subset1, subset2); int j = std::max(subset1, subset2);
  int slice = j*(j+1)/2+i;\<close>
\<close>

definition sliceIndex :: "int \<Rightarrow> int \<Rightarrow> error + int" where
  "sliceIndex subset1 subset2 =
     (let i = min subset1 subset2; j = max subset1 subset2 in
      if fits_int (j + 1) \<and> fits_int (j * (j + 1)) \<and> fits_int (cdiv (j * (j + 1)) 2 + i)
      then Inr (cdiv (j * (j + 1)) 2 + i)
      else Inl IntegerOverflow)"

section \<open>The force object: \<open>SlicedPmeForce.cpp\<close>\<close>

record ParticleInfo =
  charge :: real
  subsetOf :: int

record ExceptionInfo =
  particle1 :: int
  particle2 :: int
  chargeProd :: real

record GlobalParameterInfo =
  name :: string
  defaultValue :: real

record SwitchingParameterInfo =
  globalParamIndex :: int
  subset1 :: int
  subset2 :: int
  slice :: int

text \<open>
  The fields of \<open>SlicedPmeForce\<close> that the operations below read or write.  The
  \<open>std::map\<close> from particle pairs to exception indices is a partial function.
\<close>

record SlicedPmeForce =
  numSubsets :: int
  particles :: "ParticleInfo list"
  exceptions :: "ExceptionInfo list"
  exceptionMap :: "int \<times> int \<rightharpoonup> int"
  globalParameters :: "GlobalParameterInfo list"
  switchingParameters :: "SwitchingParameterInfo list"
  switchingParameter :: "real list"

text \<open>
  The constructor: \<^verbatim>\<open>for (int j = 0; j < numSubsets*(numSubsets+1)/2; j++)
  switchingParameter.push_back(1.0);\<close>
\<close>

function pushOnes :: "int \<Rightarrow> int \<Rightarrow> real list \<Rightarrow> real list" where
  "pushOnes j bound v = (if j < bound then pushOnes (j + 1) bound (v @ [1]) else v)"
  by pat_completeness auto
termination
  by (relation "measure (\<lambda>(j, bound, v). nat (bound - j))") auto

declare pushOnes.simps [simp del]

definition SlicedPmeForce_new :: "int \<Rightarrow> error + SlicedPmeForce" where
  "SlicedPmeForce_new n =
     (if n \<le> 0 then Inl InvalidNumberOfSubsets
      else if \<not> (fits_int (n + 1) \<and> fits_int (n * (n + 1))) then Inl IntegerOverflow
      else Inr \<lparr>numSubsets = n, particles = [], exceptions = [], exceptionMap = Map.empty,
                globalParameters = [], switchingParameters = [],
                switchingParameter = pushOnes 0 (cdiv (n * (n + 1)) 2) []\<rparr>)"

text \<open>
  \<^verbatim>\<open>#define ASSERT_VALID_SUBSET(subset) {if (subset < 0 || subset >= numSubsets)
  throwException(__FILE__, __LINE__, "Subset out of range");};\<close>
  The result is the error thrown, if any.
\<close>

definition ASSERT_VALID_SUBSET :: "SlicedPmeForce \<Rightarrow> int \<Rightarrow> error option" where
  "ASSERT_VALID_SUBSET f s =
     (if s < 0 \<or> s \<ge> numSubsets f then Some SubsetOutOfRange else None)"

text \<open>
  Modelled from the spec: the macro \<open>ASSERT_VALID_INDEX\<close> is defined in
  \<open>openmm/internal/AssertionUtilities.h\<close>, which is not among the sources.  The
  accessors are indexed-array operations that fail on an index outside the array, with
  OpenMM's message "Index out of range".
\<close>

definition ASSERT_VALID_INDEX :: "int \<Rightarrow> 'a list \<Rightarrow> error option" where
  "ASSERT_VALID_INDEX index v =
     (if index < 0 \<or> index \<ge> int (length v) then Some IndexOutOfRange else None)"

text \<open>
  Operations on the force return the outcome (the error thrown, or the value returned)
  together with the force as the call leaves it.
\<close>

definition addParticle :: "real \<Rightarrow> int \<Rightarrow> SlicedPmeForce \<Rightarrow> (error + int) \<times> SlicedPmeForce" where
  "addParticle q s f =
     (case ASSERT_VALID_SUBSET f s of
        Some e \<Rightarrow> (Inl e, f)
      | None \<Rightarrow>
          (let f' = f\<lparr>particles := particles f @ [\<lparr>charge = q, subsetOf = s\<rparr>]\<rparr>
           in (Inr (int (length (particles f')) - 1), f')))"

definition setParticleSubset :: "int \<Rightarrow> int \<Rightarrow> SlicedPmeForce \<Rightarrow> (error + unit) \<times> SlicedPmeForce" where
  "setParticleSubset index s f =
     (case ASSERT_VALID_INDEX index (particles f) of
        Some e \<Rightarrow> (Inl e, f)
      | None \<Rightarrow>
         (case ASSERT_VALID_SUBSET f s of
            Some e \<Rightarrow> (Inl e, f)
          | None \<Rightarrow>
              (Inr (), f\<lparr>particles := (particles f)
                          [nat index := (particles f ! nat index)\<lparr>subsetOf := s\<rparr>]\<rparr>)))"

definition setParticleCharge :: "int \<Rightarrow> real \<Rightarrow> SlicedPmeForce \<Rightarrow> (error + unit) \<times> SlicedPmeForce" where
  "setParticleCharge index q f =
     (case ASSERT_VALID_INDEX index (particles f) of
        Some e \<Rightarrow> (Inl e, f)
      | None \<Rightarrow>
          (Inr (), f\<lparr>particles := (particles f)
                      [nat index := (particles f ! nat index)\<lparr>charge := q\<rparr>]\<rparr>))"

text \<open>
  \<open>addException\<close> looks the pair up in \<open>exceptionMap\<close>, first as given and then
  swapped.
\<close>

definition findException :: "SlicedPmeForce \<Rightarrow> int \<Rightarrow> int \<Rightarrow> ((int \<times> int) \<times> int) option" where
  "findException f p1 p2 =
     (case exceptionMap f (p1, p2) of
        Some i \<Rightarrow> Some ((p1, p2), i)
      | None \<Rightarrow>
         (case exceptionMap f (p2, p1) of
            Some i \<Rightarrow> Some ((p2, p1), i)
          | None \<Rightarrow> None))"

definition addException ::
  "int \<Rightarrow> int \<Rightarrow> real \<Rightarrow> bool \<Rightarrow> SlicedPmeForce \<Rightarrow> (error + int) \<times> SlicedPmeForce" where
  "addException p1 p2 cp replace f =
     (case findException f p1 p2 of
        Some (key, i) \<Rightarrow>
          if \<not> replace then (Inl (ExceptionExists p1 p2), f)
          else
            (Inr i,
             f\<lparr>exceptions := (exceptions f)
                  [nat i := \<lparr>particle1 = p1, particle2 = p2, chargeProd = cp\<rparr>],
               exceptionMap := ((exceptionMap f)(key := None))((p1, p2) \<mapsto> i)\<rparr>)
      | None \<Rightarrow>
          (let es = exceptions f @ [\<lparr>particle1 = p1, particle2 = p2, chargeProd = cp\<rparr>];
               newIndex = int (length es) - 1
           in (Inr newIndex,
               f\<lparr>exceptions := es, exceptionMap := (exceptionMap f)((p1, p2) \<mapsto> newIndex)\<rparr>)))"

definition setExceptionParameters ::
  "int \<Rightarrow> int \<Rightarrow> int \<Rightarrow> real \<Rightarrow> SlicedPmeForce \<Rightarrow> (error + unit) \<times> SlicedPmeForce" where
  "setExceptionParameters index p1 p2 cp f =
     (case ASSERT_VALID_INDEX index (exceptions f) of
        Some e \<Rightarrow> (Inl e, f)
      | None \<Rightarrow>
          (Inr (), f\<lparr>exceptions := (exceptions f)
                      [nat index := \<lparr>particle1 = p1, particle2 = p2, chargeProd = cp\<rparr>]\<rparr>))"

definition addGlobalParameter ::
  "string \<Rightarrow> real \<Rightarrow> SlicedPmeForce \<Rightarrow> (error + int) \<times> SlicedPmeForce" where
  "addGlobalParameter nm v f =
     (let f' = f\<lparr>globalParameters := globalParameters f @ [\<lparr>name = nm, defaultValue = v\<rparr>]\<rparr>
      in (Inr (int (length (globalParameters f')) - 1), f'))"

text \<open>
  \<open>getGlobalParameterIndex\<close>: the loop over \<open>globalParameters\<close> returns the first index
  whose name is the one asked for; past the end it throws.
\<close>

fun findGlobalParameter :: "GlobalParameterInfo list \<Rightarrow> string \<Rightarrow> int \<Rightarrow> error + int" where
  "findGlobalParameter [] parameter i = Inl (NoGlobalParameter parameter)"
| "findGlobalParameter (g # gs) parameter i =
     (if name g = parameter then Inr i else findGlobalParameter gs parameter (i + 1))"

definition getGlobalParameterIndex :: "SlicedPmeForce \<Rightarrow> string \<Rightarrow> error + int" where
  "getGlobalParameterIndex f parameter = findGlobalParameter (globalParameters f) parameter 0"

text \<open>
  Modelled from the spec: the class \<open>SwitchingParameterInfo\<close> is declared in
  \<open>SlicedPmeForce.h\<close>, which is not among the sources.  Its constructor takes the global
  parameter index and the two subsets, kept here in \<open>subset1\<close> and \<open>subset2\<close> in the order
  in which the caller passes them; its field \<open>slice\<close> is the "linear index
  \<open>j*(j+1)/2 + i\<close> where \<open>i = min(i,j)\<close>, \<open>j = max(i,j)\<close>" of the pair, which the caller
  below has just computed.
\<close>

definition SwitchingParameterInfo_new :: "int \<Rightarrow> int \<Rightarrow> int \<Rightarrow> int \<Rightarrow> SwitchingParameterInfo" where
  "SwitchingParameterInfo_new g s1 s2 k =
     \<lparr>globalParamIndex = g, subset1 = s1, subset2 = s2, slice = k\<rparr>"

text \<open>
  \<open>addSwitchingParameter\<close>: the two subset checks, the slice, the loop that looks for a
  parameter already bound to the slice, and then the \<open>push_back\<close>, whose argument calls
  \<open>getGlobalParameterIndex\<close> before anything is stored.
\<close>

definition addSwitchingParameter ::
  "string \<Rightarrow> int \<Rightarrow> int \<Rightarrow> SlicedPmeForce \<Rightarrow> (error + int) \<times> SlicedPmeForce" where
  "addSwitchingParameter parameter s1 s2 f =
     (case ASSERT_VALID_SUBSET f s1 of
        Some e \<Rightarrow> (Inl e, f)
      | None \<Rightarrow>
     (case ASSERT_VALID_SUBSET f s2 of
        Some e \<Rightarrow> (Inl e, f)
      | None \<Rightarrow>
     (case sliceIndex s1 s2 of
        Inl e \<Rightarrow> (Inl e, f)
      | Inr k \<Rightarrow>
          if list_ex (\<lambda>p. slice p = k) (switchingParameters f) then (Inl SliceAlreadyDefined, f)
          else
            (case getGlobalParameterIndex f parameter of
               Inl e \<Rightarrow> (Inl e, f)
             | Inr g \<Rightarrow>
                 (let f' = f\<lparr>switchingParameters :=
                              switchingParameters f @ [SwitchingParameterInfo_new g s1 s2 k]\<rparr>
                  in (Inr (int (length (switchingParameters f')) - 1), f'))))))"


text \<open>
  \<open>setSwitchingParameter\<close> checks the index and the subsets, resolves the parameter
  name, and looks for another parameter on the slice only when the slice of the entry
  changes.
\<close>

definition setSwitchingParameter ::
  "int \<Rightarrow> string \<Rightarrow> int \<Rightarrow> int \<Rightarrow> SlicedPmeForce \<Rightarrow> (error + unit) \<times> SlicedPmeForce" where
  "setSwitchingParameter index parameter s1 s2 f =
     (case ASSERT_VALID_INDEX index (switchingParameters f) of
        Some e \<Rightarrow> (Inl e, f)
      | None \<Rightarrow>
     (case ASSERT_VALID_SUBSET f s1 of
        Some e \<Rightarrow> (Inl e, f)
      | None \<Rightarrow>
     (case ASSERT_VALID_SUBSET f s2 of
        Some e \<Rightarrow> (Inl e, f)
      | None \<Rightarrow>
     (case sliceIndex s1 s2 of
        Inl e \<Rightarrow> (Inl e, f)
      | Inr k \<Rightarrow>
     (case getGlobalParameterIndex f parameter of
        Inl e \<Rightarrow> (Inl e, f)
      | Inr g \<Rightarrow>
          if slice (switchingParameters f ! nat index) \<noteq> k
             \<and> list_ex (\<lambda>p. slice p = k) (switchingParameters f)
          then (Inl SliceAlreadyDefined, f)
          else (Inr (), f\<lparr>switchingParameters := (switchingParameters f)
                            [nat index := SwitchingParameterInfo_new g s1 s2 k]\<rparr>))))))"

definition setGlobalParameterName ::
  "int \<Rightarrow> string \<Rightarrow> SlicedPmeForce \<Rightarrow> (error + unit) \<times> SlicedPmeForce" where
  "setGlobalParameterName index nm f =
     (case ASSERT_VALID_INDEX index (globalParameters f) of
        Some e \<Rightarrow> (Inl e, f)
      | None \<Rightarrow>
          (Inr (), f\<lparr>globalParameters := (globalParameters f)
                      [nat index := (globalParameters f ! nat index)\<lparr>name := nm\<rparr>]\<rparr>))"

definition setGlobalParameterDefaultValue ::
  "int \<Rightarrow> real \<Rightarrow> SlicedPmeForce \<Rightarrow> (error + unit) \<times> SlicedPmeForce" where
  "setGlobalParameterDefaultValue index v f =
     (case ASSERT_VALID_INDEX index (globalParameters f) of
        Some e \<Rightarrow> (Inl e, f)
      | None \<Rightarrow>
          (Inr (), f\<lparr>globalParameters := (globalParameters f)
                      [nat index := (globalParameters f ! nat index)\<lparr>defaultValue := v\<rparr>]\<rparr>))"

text \<open>
  The states of a force: what the constructor returns, and what each mutator of the
  fields above leaves behind, whether it returns or throws.
\<close>

inductive reachable :: "SlicedPmeForce \<Rightarrow> bool" where
  r_new: "SlicedPmeForce_new n = Inr f \<Longrightarrow> reachable f"
| r_addParticle: "reachable f \<Longrightarrow> reachable (snd (addParticle q s f))"
| r_setParticleSubset: "reachable f \<Longrightarrow> reachable (snd (setParticleSubset index s f))"
| r_setParticleCharge: "reachable f \<Longrightarrow> reachable (snd (setParticleCharge index q f))"
| r_addException: "reachable f \<Longrightarrow> reachable (snd (addException p1 p2 cp replace f))"
| r_setExceptionParameters:
    "reachable f \<Longrightarrow> reachable (snd (setExceptionParameters index p1 p2 cp f))"
| r_addGlobalParameter: "reachable f \<Longrightarrow> reachable (snd (addGlobalParameter nm v f))"
| r_setGlobalParameterName: "reachable f \<Longrightarrow> reachable (snd (setGlobalParameterName index nm f))"
| r_setGlobalParameterDefaultValue:
    "reachable f \<Longrightarrow> reachable (snd (setGlobalParameterDefaultValue index v f))"
| r_addSwitchingParameter:
    "reachable f \<Longrightarrow> reachable (snd (addSwitchingParameter nm s1 s2 f))"
| r_setSwitchingParameter:
    "reachable f \<Longrightarrow> reachable (snd (setSwitchingParameter index nm s1 s2 f))"

text \<open>
  The exception map indexes the exception list: every entry of the map points at the
  exception with that ordered pair, every exception is in the map under its ordered pair,
  and no two exceptions are for the same unordered pair.
\<close>

definition exceptions_indexed :: "SlicedPmeForce \<Rightarrow> bool" where
  "exceptions_indexed f \<longleftrightarrow>
     (\<forall>a b i. exceptionMap f (a, b) = Some i \<longrightarrow>
        0 \<le> i \<and> nat i < length (exceptions f)
        \<and> particle1 (exceptions f ! nat i) = a \<and> particle2 (exceptions f ! nat i) = b)
     \<and> (\<forall>n < length (exceptions f).
          exceptionMap f (particle1 (exceptions f ! n), particle2 (exceptions f ! n)) = Some (int n))
     \<and> (\<forall>m < length (exceptions f). \<forall>n < length (exceptions f).
          {particle1 (exceptions f ! m), particle2 (exceptions f ! m)}
            = {particle1 (exceptions f ! n), particle2 (exceptions f ! n)} \<longrightarrow> m = n)"

definition tri :: "int \<Rightarrow> int" where
  "tri n = n * (n + 1) div 2"

text \<open>
  What every state of a force satisfies: the subset count is within the range the
  constructor accepts, every particle's subset is in range, and every switching parameter
  is for two subsets in range and carries the slice index of that pair.
\<close>

definition force_inv :: "SlicedPmeForce \<Rightarrow> bool" where
  "force_inv f \<longleftrightarrow>
     1 \<le> numSubsets f \<and> numSubsets f \<le> 46340
     \<and> (\<forall>p \<in> set (particles f). 0 \<le> subsetOf p \<and> subsetOf p < numSubsets f)
     \<and> (\<forall>p \<in> set (switchingParameters f).
           0 \<le> subset1 p \<and> subset1 p < numSubsets f \<and> 0 \<le> subset2 p \<and> subset2 p < numSubsets f
           \<and> sliceIndex (subset1 p) (subset2 p) = Inr (slice p))"

section \<open>The legal grid dimension: \<open>OpenCLVkFFT3D::findLegalDimension\<close>\<close>

text \<open>
  The inner loop \<^verbatim>\<open>while (unfactored > 1 && unfactored%factor == 0) unfactored /= factor;\<close>
  runs with \<open>factor \<ge> 2\<close> only, since \<open>factor\<close> starts at 2 and is only incremented; the
  conjunct \<open>1 < factor\<close> records this (with a factor of 1 the loop would not end).  The
  operands of \<open>%\<close> and \<open>/\<close> are positive there, where C++ and HOL agree on both.
\<close>

function stripFactor :: "int \<Rightarrow> int \<Rightarrow> int" where
  "stripFactor unfactored factor =
     (if 1 < factor \<and> unfactored > 1 \<and> unfactored mod factor = 0
      then stripFactor (unfactored div factor) factor
      else unfactored)"
  by pat_completeness auto
termination
  by (relation "measure (\<lambda>(unfactored, factor). nat unfactored)")
     (auto simp: int_div_less_self)

declare stripFactor.simps [simp del]

text \<open>
  \<^verbatim>\<open>for (int factor = 2; factor <= maxPrimeFactor; factor++) { while ... }\<close>:
  the increment of a \<open>factor\<close> equal to \<open>INT_MAX\<close> overflows.
\<close>

function factorLoop :: "int \<Rightarrow> int \<Rightarrow> int \<Rightarrow> error + int" where
  "factorLoop unfactored factor maxPrimeFactor =
     (if factor \<le> maxPrimeFactor
      then (if factor = INT_MAX then Inl IntegerOverflow
            else factorLoop (stripFactor unfactored factor) (factor + 1) maxPrimeFactor)
      else Inr unfactored)"
  by pat_completeness auto
termination
  by (relation "measure (\<lambda>(unfactored, factor, maxPrimeFactor). nat (maxPrimeFactor + 1 - factor))")
     auto

declare factorLoop.simps [simp del]

text \<open>
  \<^verbatim>\<open>while (true) { int unfactored = minimum; for ...; if (unfactored == 1) return minimum;
  minimum++; }\<close>: the increment of a \<open>minimum\<close> equal to \<open>INT_MAX\<close> overflows.
\<close>

function legalLoop :: "int \<Rightarrow> int \<Rightarrow> error + int" where
  "legalLoop minimum maxPrimeFactor =
     (case factorLoop minimum 2 maxPrimeFactor of
        Inl e \<Rightarrow> Inl e
      | Inr unfactored \<Rightarrow>
          if unfactored = 1 then Inr minimum
          else if minimum \<ge> INT_MAX then Inl IntegerOverflow
          else legalLoop (minimum + 1) maxPrimeFactor)"
  by pat_completeness auto
termination
  by (relation "measure (\<lambda>(minimum, maxPrimeFactor). nat (INT_MAX - minimum))") auto

declare legalLoop.simps [simp del]

definition findLegalDimension :: "int \<Rightarrow> int \<Rightarrow> error + int" where
  "findLegalDimension minimum maxPrimeFactor =
     (if minimum < 1 then Inr 1 else legalLoop minimum maxPrimeFactor)"

text \<open>
  What the search is for, in the words of its documentation: a size "with no prime
  factors other than 2, 3, 5, ..., maxPrimeFactor".  A prime factor of a positive \<open>n\<close> lies
  between 2 and \<open>n\<close>.
\<close>

definition is_prime :: "int \<Rightarrow> bool" where
  "is_prime p \<longleftrightarrow> 1 < p \<and> (\<forall>d \<in> {2 ..< p}. \<not> d dvd p)"

definition legal :: "int \<Rightarrow> int \<Rightarrow> bool" where
  "legal maxPrimeFactor n \<longleftrightarrow>
     (\<forall>p \<in> {2 .. n}. is_prime p \<and> p dvd n \<longrightarrow> p \<le> maxPrimeFactor)"

section \<open>The CUDA kernel: \<open>CudaPmeSlicingKernels.cpp\<close>\<close>

text \<open>
  \<open>CudaCalcSlicedPmeForceKernel\<close> reads the force through its accessors only.  Their
  results are the fields of \<open>ForceView\<close>: the particles as (charge, subset), the exceptions
  as (particle1, particle2, chargeProd), the charge offsets as (parameter, particle or
  exception index, scale) and the coupling parameters as (parameter, subset1, subset2),
  the values that \<open>getCouplingParameter\<close> hands out (in \<open>SlicedPmeForce.cpp\<close> the accessor is
  \<open>getSwitchingParameter\<close>, which returns the two subsets as the force holds them).
\<close>

record ForceView =
  fvNumSubsets :: int
  fvParticles :: "(real \<times> int) list"
  fvExceptions :: "(int \<times> int \<times> real) list"
  fvParticleOffsets :: "(string \<times> int \<times> real) list"
  fvExceptionOffsets :: "(string \<times> int \<times> real) list"
  fvCouplingParameters :: "(string \<times> int \<times> int) list"

text \<open>
  What the kernel takes from outside this repository: from the \<open>CudaContext\<close> the index of
  this device context, the number of device contexts (at least 1), the number of atoms and
  its padded value (at least the number of atoms) and whether the device computes in
  double precision; the constant \<open>ONE_4PI_EPS0\<close> of OpenMM; and the Ewald coefficient that
  \<open>SlicedPmeForceImpl::calcPMEParameters\<close> computes.
\<close>

record Env =
  contextIndex :: nat
  numContexts :: nat
  numAtoms :: int
  paddedNumAtoms :: nat
  useDoublePrecision :: bool
  ONE_4PI_EPS0 :: real
  pmeAlpha :: real

text \<open>
  The members of the kernel that the claims are about.  \<open>sliceLambda\<close>,
  \<open>baseParticleCharges\<close> and \<open>subsets\<close> are device arrays, written by \<open>upload\<close>;
  \<open>pmeGrid1Initialized\<close> is \<open>pmeGrid1.isInitialized()\<close>.
\<close>

record Kernel =
  kNumSubsets :: int
  numSlices :: int
  alpha :: real
  ewaldSelfEnergy :: real
  subsetSelfEnergy :: "real list"
  hasOffsets :: bool
  coupParamNames :: "string list"
  coupParamValues :: "real list"
  sliceCoupParamIndex :: "int list"
  sliceLambdaVec :: "real list"
  sliceLambda :: "real list"
  baseParticleCharges :: "real list"
  subsets :: "int list"
  paramNames :: "string list"
  paramValues :: "real list"
  recomputeParams :: bool
  exceptionPairs :: "(int \<times> int) list"
  pmeGrid1Initialized :: bool

text \<open>
  \<^verbatim>\<open>find(names.begin(), names.end(), param) - names.begin()\<close>: the position of the first
  occurrence, or the size of the vector.
\<close>

fun findIndex :: "'a \<Rightarrow> 'a list \<Rightarrow> nat" where
  "findIndex x [] = 0"
| "findIndex x (y # ys) = (if y = x then 0 else Suc (findIndex x ys))"

text \<open>
  The slot of a coupling parameter, \<^verbatim>\<open>sliceCoupParamIndex[s2*(s2+1)/2+s1] = index\<close>: the
  kernel takes the two subsets in the order in which the force hands them out.
\<close>

definition coupSlot :: "int \<Rightarrow> int \<Rightarrow> error + int" where
  "coupSlot s1 s2 =
     (if fits_int (s2 + 1) \<and> fits_int (s2 * (s2 + 1)) \<and> fits_int (cdiv (s2 * (s2 + 1)) 2 + s1)
      then Inr (cdiv (s2 * (s2 + 1)) 2 + s1)
      else Inl IntegerOverflow)"

text \<open>
  The loop over the coupling parameters.  The state is \<open>coupParamNames\<close>,
  \<open>coupParamValues\<close> and \<open>sliceCoupParamIndex\<close>; a slot outside \<open>sliceCoupParamIndex\<close> is a
  write outside the vector.
\<close>

fun coupLoop ::
  "(string \<times> int \<times> int) list \<Rightarrow> string list \<times> real list \<times> int list
     \<Rightarrow> error + string list \<times> real list \<times> int list" where
  "coupLoop [] st = Inr st"
| "coupLoop ((param, s1, s2) # rest) (names, vals, idx) =
     (let index = findIndex param names;
          names' = (if index = length names then names @ [param] else names);
          vals' = (if index = length names then vals @ [1] else vals)
      in case coupSlot s1 s2 of
           Inl e \<Rightarrow> Inl e
         | Inr slot \<Rightarrow>
             if 0 \<le> slot \<and> nat slot < length idx
             then coupLoop rest (names', vals', idx[nat slot := int index])
             else Inl OutOfBounds)"

text \<open>
  Single precision.  The kernel keeps the charges in a \<open>vector<float>\<close> and, on a device
  in single precision, uploads the lambdas as floats.  \<open>toFloat\<close> is the value a \<open>double\<close>
  has once it is stored in a \<open>float\<close>: the nearest binary32 number, a tie going to the
  even significand, with 24 bits above \<open>2^-126\<close> and multiples of \<open>2^-149\<close> below.  The
  doubles themselves are real numbers here, and there are no infinities: a value beyond
  the largest float is rounded as if the exponent had no upper end.
\<close>

definition roundEven :: "real \<Rightarrow> int" where
  "roundEven x =
     (let f = \<lfloor>x\<rfloor>; d = x - of_int f
      in if d < 1 / 2 then f else if 1 / 2 < d then f + 1 else if even f then f else f + 1)"

definition toFloat :: "real \<Rightarrow> real" where
  "toFloat x =
     (if x = 0 then 0
      else (let e = max \<lfloor>log 2 \<bar>x\<bar>\<rfloor> (- 126);
                ulp = 2 powr of_int (e - 23)
            in of_int (roundEven (x / ulp)) * ulp))"

text \<open>
  A vector of doubles as \<open>upload\<close> stores it on the device:
  \<^verbatim>\<open>if (cu.getUseDoublePrecision()) sliceLambda.upload(sliceLambdaVec); else
  sliceLambda.upload(floatVector(sliceLambdaVec));\<close>
\<close>

definition deviceReal :: "Env \<Rightarrow> real \<Rightarrow> real" where
  "deviceReal env x = (if useDoublePrecision env then x else toFloat x)"

definition uploadReal :: "Env \<Rightarrow> real list \<Rightarrow> real list" where
  "uploadReal env v = map (deviceReal env) v"

text \<open>
  \<^verbatim>\<open>for (int i = 0; i < numParticles; i++) subsetSelfEnergy[subsetVec[i]] +=
  baseParticleChargeVec[i]*baseParticleChargeVec[i];\<close>
  The charges are floats, so is their product, which is then added to a \<open>double\<close>.  A subset
  outside \<open>subsetSelfEnergy\<close> is a write outside the vector.
\<close>

fun accumulateSquares :: "int list \<Rightarrow> real list \<Rightarrow> nat \<Rightarrow> real list \<Rightarrow> error + real list" where
  "accumulateSquares subsetVec charges 0 acc = Inr acc"
| "accumulateSquares subsetVec charges (Suc i) acc =
     (case accumulateSquares subsetVec charges i acc of
        Inl e \<Rightarrow> Inl e
      | Inr a \<Rightarrow>
          (let s = subsetVec ! i in
           if 0 \<le> s \<and> nat s < length a
           then Inr (a[nat s := a ! nat s + toFloat (charges ! i * charges ! i)])
           else Inl OutOfBounds))"

text \<open>
  \<^verbatim>\<open>for (int j = 0; j < numSubsets; j++) subsetSelfEnergy[j] *=
  -ONE_4PI_EPS0*alpha/sqrt(M_PI);\<close>
\<close>

definition scaleSelfEnergy :: "Env \<Rightarrow> real \<Rightarrow> real list \<Rightarrow> real list" where
  "scaleSelfEnergy env a sse = map (\<lambda>x. x * (- ONE_4PI_EPS0 env * a / sqrt pi)) sse"

text \<open>
  \<^verbatim>\<open>for (int j = 0; j < numSubsets; j++) ewaldSelfEnergy +=
  sliceLambdaVec[j*(j+3)/2]*subsetSelfEnergy[j];\<close> starting from 0.  Here \<open>j\<close> is below the
  number of subsets of a kernel that \<open>initialize\<close> has set up, at most 46340, where
  \<open>j*(j+3)\<close> is within \<open>int\<close>.
\<close>

fun selfEnergyLoop :: "real list \<Rightarrow> real list \<Rightarrow> nat \<Rightarrow> real" where
  "selfEnergyLoop lam sse 0 = 0"
| "selfEnergyLoop lam sse (Suc j) =
     selfEnergyLoop lam sse j + lam ! (j * (j + 3) div 2) * sse ! j"

text \<open>The exceptions with a non-zero \<open>chargeProd\<close> or with a charge offset, by index.\<close>

definition nonExcluded :: "ForceView \<Rightarrow> nat list" where
  "nonExcluded fv =
     filter (\<lambda>i. snd (snd (fvExceptions fv ! i)) \<noteq> 0
                 \<or> int i \<in> set (map (\<lambda>(param, exception, scale). exception) (fvExceptionOffsets fv)))
       [0 ..< length (fvExceptions fv)]"

text \<open>The particle pairs of those exceptions, in the order of the exceptions.\<close>

definition nonExcludedPairs :: "ForceView \<Rightarrow> (int \<times> int) list" where
  "nonExcludedPairs fv =
     map (\<lambda>i. (fst (fvExceptions fv ! i), fst (snd (fvExceptions fv ! i)))) (nonExcluded fv)"

text \<open>
  \<^verbatim>\<open>startIndex = cu.getContextIndex()*exceptions.size()/numContexts;
  endIndex = (cu.getContextIndex()+1)*exceptions.size()/numContexts;\<close>
\<close>

definition startIndex :: "Env \<Rightarrow> nat \<Rightarrow> nat" where
  "startIndex env n = contextIndex env * n div numContexts env"

definition endIndex :: "Env \<Rightarrow> nat \<Rightarrow> nat" where
  "endIndex env n = (contextIndex env + 1) * n div numContexts env"

text \<open>
  The particle pairs of the exceptions \<open>exceptions[startIndex + k]\<close> for
  \<open>k < numExceptions = endIndex - startIndex\<close>, the part of this device context.
\<close>

definition exceptionShare :: "Env \<Rightarrow> ForceView \<Rightarrow> (int \<times> int) list" where
  "exceptionShare env fv =
     (let exceptions = nonExcluded fv;
          numExceptions = endIndex env (length exceptions) - startIndex env (length exceptions)
      in map (\<lambda>k. (let e = fvExceptions fv ! (exceptions ! (startIndex env (length exceptions) + k))
                    in (fst e, fst (snd e))))
           [0 ..< numExceptions])"

text \<open>
  The names of the global parameters of the charge offsets, in the order in which
  \<open>initialize\<close> meets them: all particle offsets, then the offsets of the exceptions of
  this device context (\<open>exceptionIndex[exception]\<close> is 0 for an exception that is not in
  the map).
\<close>

fun addNames :: "string list \<Rightarrow> string list \<Rightarrow> string list" where
  "addNames [] names = names"
| "addNames (param # rest) names =
     addNames rest (if findIndex param names = length names then names @ [param] else names)"

definition offsetParamNames :: "Env \<Rightarrow> ForceView \<Rightarrow> string list" where
  "offsetParamNames env fv =
     (let exceptions = nonExcluded fv;
          firstIndex = startIndex env (length exceptions);
          lastIndex = endIndex env (length exceptions);
          mine = filter (\<lambda>(param, exception, scale).
                    (let index = (if exception \<in> int ` set exceptions
                                  then findIndex (nat exception) exceptions else 0)
                     in \<not> (index < firstIndex \<or> index \<ge> lastIndex)))
                   (fvExceptionOffsets fv)
      in addNames (map fst mine) (addNames (map fst (fvParticleOffsets fv)) []))"

text \<open>
  \<open>initialize\<close>, for a kernel object just constructed (all vectors empty).  The vectors of
  per-atom values have \<open>cu.getPaddedNumAtoms()\<close> entries.
\<close>

definition padTo :: "nat \<Rightarrow> 'a \<Rightarrow> 'a list \<Rightarrow> 'a list" where
  "padTo n x xs = xs @ replicate (n - length xs) x"

definition initialize :: "Env \<Rightarrow> ForceView \<Rightarrow> error + Kernel" where
  "initialize env fv =
     (let n = fvNumSubsets fv in
      if \<not> (fits_int (n + 1) \<and> fits_int (n * (n + 1))) then Inl IntegerOverflow
      else
       (let slices = cdiv (n * (n + 1)) 2;
            baseParticleChargeVec =
              padTo (paddedNumAtoms env) 0 (map (\<lambda>p. toFloat (fst p)) (fvParticles fv));
            subsetVec = padTo (paddedNumAtoms env) 0 (map snd (fvParticles fv))
        in case coupLoop (fvCouplingParameters fv) ([], [], replicate (nat slices) (- 1)) of
             Inl e \<Rightarrow> Inl e
           | Inr (names, vals, idx) \<Rightarrow>
              (case (if contextIndex env = 0
                     then accumulateSquares subsetVec baseParticleChargeVec
                            (length (fvParticles fv)) (replicate (nat n) 0)
                     else Inr (replicate (nat n) 0)) of
                 Inl e \<Rightarrow> Inl e
               | Inr sq \<Rightarrow>
                  (let sse = (if contextIndex env = 0
                              then scaleSelfEnergy env (pmeAlpha env) sq else sq)
                   in Inr \<lparr>kNumSubsets = n, numSlices = slices, alpha = pmeAlpha env,
                           ewaldSelfEnergy = sum_list sse, subsetSelfEnergy = sse,
                           hasOffsets = (length (fvParticleOffsets fv) > 0
                                         \<or> length (fvExceptionOffsets fv) > 0),
                           coupParamNames = names, coupParamValues = vals,
                           sliceCoupParamIndex = idx,
                           sliceLambdaVec = replicate (nat slices) 1,
                           sliceLambda = uploadReal env (replicate (nat slices) 1),
                           baseParticleCharges = baseParticleChargeVec, subsets = subsetVec,
                           paramNames = offsetParamNames env fv,
                           paramValues = replicate (length (offsetParamNames env fv)) 0,
                           recomputeParams = True,
                           exceptionPairs = exceptionShare env fv,
                           pmeGrid1Initialized = (contextIndex env = 0)\<rparr>))))"

text \<open>
  \<open>execute\<close>.  The context gives the current value of every global parameter.  First loop:
  \<^verbatim>\<open>double value = context.getParameter(names[i]); if (value != values[i]) {values[i] =
  value; changed = true;}\<close>, used for the coupling parameters and for the offset
  parameters.
\<close>

fun readParameters ::
  "(string \<Rightarrow> real) \<Rightarrow> string list \<Rightarrow> nat \<Rightarrow> real list \<times> bool \<Rightarrow> real list \<times> bool" where
  "readParameters context names 0 st = st"
| "readParameters context names (Suc i) st =
     (let (vals, changed) = readParameters context names i st;
          value = context (names ! i)
      in if value \<noteq> vals ! i then (vals[i := value], True) else (vals, changed))"

text \<open>
  \<^verbatim>\<open>for (int slice = 0; slice < numSlices; slice++) { int index =
  sliceCoupParamIndex[slice]; if (index != -1) sliceLambdaVec[slice] =
  coupParamValues[index]; }\<close>
\<close>

fun lambdaLoop :: "int list \<Rightarrow> real list \<Rightarrow> nat \<Rightarrow> real list \<Rightarrow> real list" where
  "lambdaLoop idx vals 0 lam = lam"
| "lambdaLoop idx vals (Suc s) lam =
     (let lam' = lambdaLoop idx vals s lam; index = idx ! s
      in if index \<noteq> - 1 then lam'[s := vals ! nat index] else lam')"

text \<open>
  The host side of \<open>execute\<close>: the coupling parameters, the offset parameters, the
  recomputation of \<open>ewaldSelfEnergy\<close>, and the energy returned, which is \<open>ewaldSelfEnergy\<close>
  when the reciprocal part runs with energy and the force has no offsets (with offsets a
  device kernel adds the self energy) and 0.0 otherwise.  The device kernels that fill
  the grids, the forces and \<open>pmeEnergyBuffer\<close> are not part of the sources.
\<close>

definition execute ::
  "Env \<Rightarrow> (string \<Rightarrow> real) \<Rightarrow> bool \<Rightarrow> bool \<Rightarrow> bool \<Rightarrow> bool \<Rightarrow> Kernel
     \<Rightarrow> real \<times> Kernel" where
  "execute env context includeForces includeEnergy includeDirect includeReciprocal k =
     (let (vals, coupParamChanged) =
            readParameters context (coupParamNames k) (length (coupParamNames k))
              (coupParamValues k, False);
          k1 = k\<lparr>coupParamValues := vals\<rparr>;
          k2 = (if coupParamChanged
                then (let lam = lambdaLoop (sliceCoupParamIndex k1) vals (nat (numSlices k1))
                                  (sliceLambdaVec k1)
                      in k1\<lparr>sliceLambdaVec := lam,
                            ewaldSelfEnergy := selfEnergyLoop lam (subsetSelfEnergy k1)
                                                 (nat (kNumSubsets k1)),
                            sliceLambda := uploadReal env lam\<rparr>)
                else k1);
          (pvals, paramChanged) =
            readParameters context (paramNames k2) (length (paramNames k2))
              (paramValues k2, False);
          k3 = k2\<lparr>paramValues := pvals, recomputeParams := (recomputeParams k2 \<or> paramChanged)\<rparr>;
          k4 = (if recomputeParams k3
                then k3\<lparr>ewaldSelfEnergy := selfEnergyLoop (sliceLambdaVec k3) (subsetSelfEnergy k3)
                                             (nat (kNumSubsets k3)),
                        recomputeParams := False\<rparr>
                else k3);
          energy = (if pmeGrid1Initialized k4 \<and> includeReciprocal \<and> includeEnergy
                       \<and> \<not> hasOffsets k4
                    then ewaldSelfEnergy k4 else 0)
      in (energy, k4))"

text \<open>
  \<open>copyParametersToContext\<close>.  The loop over the exceptions of this device context throws
  at the first pair that differs from the pair recorded by \<open>initialize\<close>; by then the
  per-particle arrays are uploaded.
\<close>

fun pairsChanged :: "(int \<times> int) list \<Rightarrow> (int \<times> int) list \<Rightarrow> bool" where
  "pairsChanged (p # ps) (q # qs) = (p \<noteq> q \<or> pairsChanged ps qs)"
| "pairsChanged ps qs = False"

definition copyParametersToContext :: "Env \<Rightarrow> ForceView \<Rightarrow> Kernel \<Rightarrow> (error + unit) \<times> Kernel" where
  "copyParametersToContext env fv k =
     (if int (length (fvParticles fv)) \<noteq> numAtoms env then (Inl ParticlesChanged, k)
      else if length (exceptionShare env fv) \<noteq> length (exceptionPairs k)
      then (Inl ExceptionsChanged, k)
      else
       (let baseParticleChargeVec =
              padTo (paddedNumAtoms env) 0 (map (\<lambda>p. toFloat (fst p)) (fvParticles fv));
            subsetVec = padTo (paddedNumAtoms env) 0 (map snd (fvParticles fv));
            k1 = k\<lparr>baseParticleCharges := baseParticleChargeVec, subsets := subsetVec\<rparr>
        in if pairsChanged (exceptionPairs k) (exceptionShare env fv)
           then (Inl ExceptionsChanged, k1)
           else
            (let zeros = replicate (nat (kNumSubsets k)) 0;
                 k2 = k1\<lparr>ewaldSelfEnergy := 0, subsetSelfEnergy := zeros\<rparr>
             in if contextIndex env = 0
                then (case accumulateSquares subsetVec baseParticleChargeVec
                             (nat (numAtoms env)) zeros of
                        Inl e \<Rightarrow> (Inl e, k2)
                      | Inr sq \<Rightarrow>
                          (Inr (), k2\<lparr>subsetSelfEnergy := scaleSelfEnergy env (alpha k) sq,
                                      recomputeParams := True\<rparr>))
                else (Inr (), k2\<lparr>recomputeParams := True\<rparr>))))"



text \<open>The states of a kernel set up for a force on a device context.\<close>

inductive initialized :: "Env \<Rightarrow> ForceView \<Rightarrow> Kernel \<Rightarrow> bool" for env fv where
  i_initialize: "initialize env fv = Inr k \<Longrightarrow> initialized env fv k"
| i_execute: "initialized env fv k \<Longrightarrow> initialized env fv (snd (execute env context f e d r k))"
| i_copy: "initialized env fv k \<Longrightarrow> initialized env fv (snd (copyParametersToContext env fv' k))"

text \<open>
  What the force guarantees about the values it hands to the kernel (claims C9, C10 and
  the subset checks of the coupling parameters), and the context about its padding.
\<close>

definition view_ok :: "Env \<Rightarrow> ForceView \<Rightarrow> bool" where
  "view_ok env fv \<longleftrightarrow>
     1 \<le> fvNumSubsets fv \<and> fvNumSubsets fv \<le> 46340
     \<and> (\<forall>p \<in> set (fvParticles fv). 0 \<le> snd p \<and> snd p < fvNumSubsets fv)
     \<and> (\<forall>c \<in> set (fvCouplingParameters fv).
           0 \<le> fst (snd c) \<and> fst (snd c) < fvNumSubsets fv
           \<and> 0 \<le> snd (snd c) \<and> snd (snd c) < fvNumSubsets fv)
     \<and> length (fvParticles fv) \<le> paddedNumAtoms env"

text \<open>
  The bookkeeping of \<open>initialize\<close>: the parameter that the loop over the coupling
  parameters leaves at a slot of \<open>sliceCoupParamIndex\<close> is the last one whose slot it is,
  and the lambda that \<open>execute\<close> then gives the slot is the value of that parameter in the
  context, or the 1.0 of \<open>initialize\<close>.
\<close>

definition slotParameter :: "(string \<times> int \<times> int) list \<Rightarrow> nat \<Rightarrow> string option" where
  "slotParameter cps slot =
     (let bound = filter (\<lambda>(param, s1, s2). coupSlot s1 s2 = Inr (int slot)) cps
      in if bound = [] then None else Some (fst (last bound)))"





text \<open>
  The bookkeeping of the coupling parameters: \<open>sliceCoupParamIndex\<close> is -1 at a slot no
  coupling parameter is bound to, and otherwise the index in \<open>coupParamNames\<close> of the
  parameter bound to the slot.
\<close>

definition slotsBound :: "(string \<times> int \<times> int) list \<Rightarrow> string list \<Rightarrow> int list \<Rightarrow> bool" where
  "slotsBound cps names idx \<longleftrightarrow>
     (\<forall>slot < length idx.
        case slotParameter cps slot of
          None \<Rightarrow> idx ! slot = - 1
        | Some param \<Rightarrow>
            0 \<le> idx ! slot \<and> nat (idx ! slot) < length names \<and> names ! nat (idx ! slot) = param)"

text \<open>
  What holds in every state of a kernel set up for a force: the sizes of its vectors, the
  bookkeeping of the coupling parameters, each lambda equal to 1.0 or to the recorded value
  of the parameter of its slot, and \<open>ewaldSelfEnergy\<close> up to date unless a recomputation is
  pending.
\<close>

definition kernel_inv :: "ForceView \<Rightarrow> Kernel \<Rightarrow> bool" where
  "kernel_inv fv k \<longleftrightarrow>
     kNumSubsets k = fvNumSubsets fv
     \<and> numSlices k = tri (kNumSubsets k)
     \<and> length (sliceCoupParamIndex k) = nat (numSlices k)
     \<and> length (sliceLambdaVec k) = nat (numSlices k)
     \<and> length (coupParamValues k) = length (coupParamNames k)
     \<and> slotsBound (fvCouplingParameters fv) (coupParamNames k) (sliceCoupParamIndex k)
     \<and> (\<forall>slot < nat (numSlices k).
           sliceLambdaVec k ! slot =
             (if sliceCoupParamIndex k ! slot = - 1 then 1
              else coupParamValues k ! nat (sliceCoupParamIndex k ! slot)))
     \<and> length (subsetSelfEnergy k) = nat (kNumSubsets k)
     \<and> (recomputeParams k
          \<or> ewaldSelfEnergy k
               = selfEnergyLoop (sliceLambdaVec k) (subsetSelfEnergy k) (nat (kNumSubsets k)))"

text \<open>
  The part of a list that the context of index \<open>c\<close> out of \<open>n\<close> takes: the entries from
  \<open>c*size/n\<close> up to \<open>(c+1)*size/n\<close>, as \<open>startIndex\<close> and \<open>endIndex\<close> cut it.
\<close>

definition shareOf :: "nat \<Rightarrow> nat \<Rightarrow> (int \<times> int) list \<Rightarrow> (int \<times> int) list" where
  "shareOf n c ys = take ((c + 1) * length ys div n - c * length ys div n)
                      (drop (c * length ys div n) ys)"

text \<open>
  An example for the kernel: two subsets, a particle in each, and the parameter \<open>lambda\<close>
  coupled to the pair (0, 1), on a single device context.
\<close>

definition demoView :: ForceView where
  "demoView =
     \<lparr>fvNumSubsets = 2, fvParticles = [(1, 0), (- 1, 1)], fvExceptions = [(0, 1, 1 / 2)],
      fvParticleOffsets = [], fvExceptionOffsets = [],
      fvCouplingParameters = [(''lambda'', 0, 1)]\<rparr>"

definition demoEnv :: Env where
  "demoEnv =
     \<lparr>contextIndex = 0, numContexts = 1, numAtoms = 2, paddedNumAtoms = 4,
      useDoublePrecision = False, ONE_4PI_EPS0 = 138935456 / 1000000, pmeAlpha = 3\<rparr>"



definition demoFewer :: ForceView where
  "demoFewer = demoView\<lparr>fvParticles := [(1, 0)]\<rparr>"

definition demoSwapped :: ForceView where
  "demoSwapped = demoView\<lparr>fvExceptions := [(1, 0, 1 / 2)]\<rparr>"

definition demoExcluded :: ForceView where
  "demoExcluded = demoView\<lparr>fvExceptions := [(0, 1, 0)]\<rparr>"

definition demoScaled :: ForceView where
  "demoScaled = demoView\<lparr>fvParticles := [(2, 0), (- 1, 1)], fvExceptions := [(0, 1, 1 / 4)]\<rparr>"



section \<open>Properties of the slice index\<close>

lemma tri_double: "2 * tri n = n * (n + 1)"
proof -
  have "even (n * (n + 1))" by simp
  then show ?thesis unfolding tri_def by (rule even_two_times_div_two)
qed

lemma tri_Suc: "tri (n + 1) = tri n + n + 1"
proof -
  have "2 * tri (n + 1) = (n + 1) * (n + 1 + 1)" by (rule tri_double)
  moreover have "2 * tri n = n * (n + 1)" by (rule tri_double)
  ultimately have "2 * tri (n + 1) = 2 * tri n + 2 * n + 2" by (simp add: algebra_simps)
  then show ?thesis by simp
qed

lemma tri_0: "tri 0 = 0"
  by (simp add: tri_def)

lemma tri_nonneg: "0 \<le> n \<Longrightarrow> 0 \<le> tri n"
  unfolding tri_def by (simp add: pos_imp_zdiv_nonneg_iff)

lemma tri_mono_step: "0 \<le> a \<Longrightarrow> a \<le> b \<Longrightarrow> tri a \<le> tri b"
proof -
  assume a: "0 \<le> a" and ab: "a \<le> b"
  have "a * (a + 1) \<le> b * (b + 1)"
    using a ab by (intro mult_mono) auto
  then have "2 * tri a \<le> 2 * tri b" by (simp only: tri_double)
  then show ?thesis by simp
qed

lemma tri_strict: "0 \<le> a \<Longrightarrow> a < b \<Longrightarrow> tri a + a < tri b"
proof -
  assume a: "0 \<le> a" and ab: "a < b"
  have "tri (a + 1) \<le> tri b" using a ab by (intro tri_mono_step) auto
  then show ?thesis by (simp add: tri_Suc)
qed

lemma tri_inj:
  assumes "0 \<le> a" "a \<le> b" "0 \<le> a'" "a' \<le> b'" "tri b + a = tri b' + a'"
  shows "a = a' \<and> b = b'"
proof -
  have "\<not> b < b'"
  proof
    assume "b < b'"
    then have "tri b + b < tri b'" using assms by (intro tri_strict) auto
    with assms show False by linarith
  qed
  moreover have "\<not> b' < b"
  proof
    assume "b' < b"
    then have "tri b' + b' < tri b" using assms by (intro tri_strict) auto
    with assms show False by linarith
  qed
  ultimately have "b = b'" by linarith
  with assms show ?thesis by simp
qed

lemma tri_surj_nat:
  "0 \<le> k \<Longrightarrow> k < tri (int S) \<Longrightarrow> \<exists>a b. 0 \<le> a \<and> a \<le> b \<and> b < int S \<and> tri b + a = k"
proof (induction S)
  case 0
  then show ?case by (simp add: tri_0)
next
  case (Suc S)
  show ?case
  proof (cases "k < tri (int S)")
    case True
    with Suc obtain a b where "0 \<le> a" "a \<le> b" "b < int S" "tri b + a = k" by blast
    then show ?thesis by (intro exI[of _ a] exI[of _ b]) auto
  next
    case False
    have "tri (int (Suc S)) = tri (int S) + int S + 1"
      using tri_Suc[of "int S"] by (simp add: add.commute)
    with Suc.prems False have "0 \<le> k - tri (int S)" "k - tri (int S) \<le> int S" by linarith+
    then show ?thesis
      by (intro exI[of _ "k - tri (int S)"] exI[of _ "int S"]) auto
  qed
qed

lemma cdiv_nonneg: "0 \<le> a \<Longrightarrow> 0 < b \<Longrightarrow> cdiv a b = a div b"
  by (auto simp: cdiv_def)

lemma tri_bound: "0 \<le> j \<Longrightarrow> j \<le> 46340 \<Longrightarrow> j * (j + 1) \<le> (2147441940::int)"
proof -
  assume "0 \<le> j" "j \<le> (46340::int)"
  then have "j * (j + 1) \<le> 46340 * (46340 + 1)" by (intro mult_mono) auto
  then show ?thesis by simp
qed

lemma sliceIndex_ordered:
  assumes "0 \<le> i" "i \<le> j" "j \<le> 46340"
  shows "sliceIndex i j = Inr (tri j + i)"
proof -
  have nn: "0 \<le> j * (j + 1)" using assms by simp
  have b: "j * (j + 1) \<le> 2147441940" using assms by (intro tri_bound) auto
  have t: "cdiv (j * (j + 1)) 2 = tri j" using nn by (simp add: cdiv_nonneg tri_def)
  have "2 * tri j \<le> 2147441940" using b by (simp only: tri_double)
  then have tb: "tri j \<le> 1073720970" by simp
  have tn: "0 \<le> tri j" using assms by (intro tri_nonneg) auto
  have f1: "fits_int (j + 1)" using assms by (simp add: fits_int_def INT_MAX_def INT_MIN_def)
  have f2: "fits_int (j * (j + 1))" using nn b by (simp add: fits_int_def INT_MAX_def INT_MIN_def)
  have f3: "fits_int (tri j + i)" using assms tb tn by (simp add: fits_int_def INT_MAX_def INT_MIN_def)
  have mm: "min i j = i" "max i j = j" using assms by auto
  show ?thesis
    unfolding sliceIndex_def Let_def mm t using f1 f2 f3 by simp
qed

lemma sliceIndex_sym: "sliceIndex i j = sliceIndex j i"
  by (simp add: sliceIndex_def min.commute max.commute)


lemma tri_below: "0 \<le> i \<Longrightarrow> i \<le> j \<Longrightarrow> j < S \<Longrightarrow> tri j + i < tri S"
proof -
  assume a: "0 \<le> i" "i \<le> j" "j < S"
  then have "tri j + j < tri S" by (intro tri_strict) auto
  with a show ?thesis by linarith
qed

text \<open>
  Claim C2, as amended.  For every subset count \<open>S\<close> from 1 to 46341, the slice index is
  symmetric, maps every pair of subset ids in \<open>[0, S)\<close> into \<open>[0, S*(S+1)/2)\<close>, and is a
  bijection between the unordered pairs of \<open>[0, S)\<close> (each represented by its ordered
  form \<open>i \<le> j\<close>) and the integers of \<open>[0, S*(S+1)/2)\<close>.  Up to 46341 subsets no step of
  \<open>j*(j+1)/2+i\<close> leaves the range of \<open>int\<close>.
\<close>

theorem sliceIndex_bijection:
  assumes "1 \<le> S" and "S \<le> 46341"
  shows "(\<forall>i j. sliceIndex i j = sliceIndex j i)
       \<and> (\<forall>i j. 0 \<le> i \<and> i < S \<and> 0 \<le> j \<and> j < S \<longrightarrow>
             sliceIndex i j \<in> Inr ` {0 ..< S * (S + 1) div 2})
       \<and> bij_betw (\<lambda>(i, j). sliceIndex i j) {(i, j). 0 \<le> i \<and> i \<le> j \<and> j < S}
             (Inr ` {0 ..< S * (S + 1) div 2})"
proof (intro conjI allI impI)
  fix i j show "sliceIndex i j = sliceIndex j i" by (rule sliceIndex_sym)
next
  have ord: "sliceIndex i j = Inr (tri j + i) \<and> 0 \<le> tri j + i \<and> tri j + i < tri S"
    if "0 \<le> i" "i \<le> j" "j < S" for i j
  proof -
    have "sliceIndex i j = Inr (tri j + i)" using that assms by (intro sliceIndex_ordered) auto
    moreover have "0 \<le> tri j" using that by (intro tri_nonneg) auto
    moreover have "tri j + i < tri S" using that by (intro tri_below) auto
    ultimately show ?thesis using that by simp
  qed
  {
    fix i j assume r: "0 \<le> i \<and> i < S \<and> 0 \<le> j \<and> j < S"
    show "sliceIndex i j \<in> Inr ` {0 ..< S * (S + 1) div 2}"
    proof (cases "i \<le> j")
      case True
      with r ord[of i j] show ?thesis by (auto simp: tri_def)
    next
      case False
      with r ord[of j i] have "sliceIndex j i \<in> Inr ` {0 ..< S * (S + 1) div 2}"
        by (auto simp: tri_def)
      then show ?thesis by (simp only: sliceIndex_sym[of i j])
    qed
  }
  show "bij_betw (\<lambda>(i, j). sliceIndex i j) {(i, j). 0 \<le> i \<and> i \<le> j \<and> j < S}
          (Inr ` {0 ..< S * (S + 1) div 2})"
    unfolding bij_betw_def
  proof
    show "inj_on (\<lambda>(i, j). sliceIndex i j) {(i, j). 0 \<le> i \<and> i \<le> j \<and> j < S}"
    proof (rule inj_onI, clarify)
      fix i j i' j'
      assume a: "0 \<le> i" "i \<le> j" "j < S" and b: "0 \<le> i'" "i' \<le> j'" "j' < S"
        and e: "sliceIndex i j = sliceIndex i' j'"
      from e ord[OF a] ord[OF b] have "tri j + i = tri j' + i'" by simp
      with a b show "i = i' \<and> j = j'" by (intro tri_inj) auto
    qed
  next
    show "(\<lambda>(i, j). sliceIndex i j) ` {(i, j). 0 \<le> i \<and> i \<le> j \<and> j < S}
            = Inr ` {0 ..< S * (S + 1) div 2}"
    proof (intro set_eqI iffI)
      fix x :: "error + int" assume "x \<in> (\<lambda>(i, j). sliceIndex i j) ` {(i, j). 0 \<le> i \<and> i \<le> j \<and> j < S}"
      then obtain i j where "0 \<le> i" "i \<le> j" "j < S" "x = sliceIndex i j" by auto
      with ord[of i j] show "x \<in> Inr ` {0 ..< S * (S + 1) div 2}" by (auto simp: tri_def)
    next
      fix x :: "error + int" assume "x \<in> Inr ` {0 ..< S * (S + 1) div 2}"
      then obtain k where k: "x = Inr k" "0 \<le> k" "k < tri S" by (auto simp: tri_def)
      have "int (nat S) = S" using assms by simp
      with k tri_surj_nat[of k "nat S"]
      obtain a b where ab: "0 \<le> a" "a \<le> b" "b < S" "tri b + a = k" by auto
      with ord[of a b] k have "x = (\<lambda>(i, j). sliceIndex i j) (a, b)" by simp
      moreover have "(a, b) \<in> {(i, j). 0 \<le> i \<and> i \<le> j \<and> j < S}" using ab by simp
      ultimately show "x \<in> (\<lambda>(i, j). sliceIndex i j) ` {(i, j). 0 \<le> i \<and> i \<le> j \<and> j < S}"
        by (rule image_eqI)
    qed
  qed
qed

text \<open>The theorem at three subsets: six slices.\<close>

theorem sliceIndex_bijection_witness:
  "(1::int) \<le> 3 \<and> (3::int) \<le> 46341
   \<and> sliceIndex 2 0 = sliceIndex 0 2
   \<and> bij_betw (\<lambda>(i, j). sliceIndex i j) {(i, j). 0 \<le> i \<and> i \<le> j \<and> j < 3} (Inr ` {0 ..< 6})"
  using sliceIndex_bijection [of 3] by simp

text \<open>
  Claim C2 as stated fails for \<open>S = 46342\<close>: for the subsets 0 and 46341 the product
  \<open>j*(j+1)\<close> is 2147534622, beyond the largest \<open>int\<close>, so the source computes no slice
  index there.
\<close>

theorem sliceIndex_overflow: "sliceIndex 0 46341 = Inl IntegerOverflow"
  by (simp add: sliceIndex_def fits_int_def INT_MAX_def INT_MIN_def cdiv_def)

section \<open>Properties of the force object\<close>

subsection \<open>The constructor\<close>

lemma pushOnes_eq: "pushOnes j bound v = v @ replicate (nat (bound - j)) 1"
proof (induction j bound v rule: pushOnes.induct)
  case (1 j bound v)
  show ?case
  proof (cases "j < bound")
    case True
    then have "nat (bound - j) = Suc (nat (bound - (j + 1)))" by simp
    with True "1" show ?thesis
      by (subst pushOnes.simps) (simp add: replicate_append_same)
  next
    case False
    then show ?thesis by (subst pushOnes.simps) simp
  qed
qed

lemma product_overflows: "46341 \<le> n \<Longrightarrow> \<not> fits_int (n * (n + 1))"
proof -
  assume "46341 \<le> n"
  then have "46341 * (46341 + 1) \<le> n * (n + 1)" by (intro mult_mono) auto
  then show ?thesis by (simp add: fits_int_def INT_MAX_def)
qed

lemma product_fits: "0 \<le> n \<Longrightarrow> n \<le> 46340 \<Longrightarrow> fits_int (n + 1) \<and> fits_int (n * (n + 1))"
proof -
  assume a: "0 \<le> n" "n \<le> 46340"
  then have "n * (n + 1) \<le> 2147441940" by (rule tri_bound)
  moreover have "0 \<le> n * (n + 1)" using a by simp
  ultimately have "fits_int (n * (n + 1))" unfolding fits_int_def INT_MAX_def INT_MIN_def by linarith
  moreover have "fits_int (n + 1)" using a by (simp add: fits_int_def INT_MAX_def INT_MIN_def)
  ultimately show ?thesis by simp
qed

lemma SlicedPmeForce_new_Inr:
  assumes "SlicedPmeForce_new n = Inr f"
  shows "1 \<le> n \<and> n \<le> 46340 \<and> numSubsets f = n \<and> particles f = [] \<and> exceptions f = []
         \<and> exceptionMap f = Map.empty \<and> globalParameters f = [] \<and> switchingParameters f = []
         \<and> switchingParameter f = replicate (nat (n * (n + 1) div 2)) 1"
proof -
  have pos: "0 < n" using assms by (auto simp: SlicedPmeForce_new_def split: if_splits)
  have fit: "fits_int (n * (n + 1))" using assms by (auto simp: SlicedPmeForce_new_def split: if_splits)
  have le: "n \<le> 46340" using fit product_overflows[of n] by fastforce
  have "cdiv (n * (n + 1)) 2 = n * (n + 1) div 2" using pos by (intro cdiv_nonneg) auto
  then show ?thesis
    using assms pos le by (auto simp: SlicedPmeForce_new_def pushOnes_eq split: if_splits)
qed

text \<open>
  Claim C10, as amended.  Constructing a force with \<open>numSubsets \<le> 0\<close> throws "Invalid
  number of subsets"; for every \<open>numSubsets\<close> from 1 to 46340 the constructor returns a
  force with \<open>numSubsets*(numSubsets+1)/2\<close> per-slice scaling entries, all 1.0.
\<close>

theorem SlicedPmeForce_new_slices:
  "(n \<le> 0 \<longrightarrow> SlicedPmeForce_new n = Inl InvalidNumberOfSubsets)
   \<and> (1 \<le> n \<and> n \<le> 46340 \<longrightarrow>
        (\<exists>f. SlicedPmeForce_new n = Inr f \<and> numSubsets f = n
           \<and> switchingParameter f = replicate (nat (n * (n + 1) div 2)) 1
           \<and> int (length (switchingParameter f)) = n * (n + 1) div 2))"
proof (intro conjI impI)
  assume "n \<le> 0" then show "SlicedPmeForce_new n = Inl InvalidNumberOfSubsets"
    by (simp add: SlicedPmeForce_new_def)
next
  assume a: "1 \<le> n \<and> n \<le> 46340"
  then have "fits_int (n + 1) \<and> fits_int (n * (n + 1))" by (intro product_fits) auto
  with a obtain f where f: "SlicedPmeForce_new n = Inr f"
    by (auto simp: SlicedPmeForce_new_def)
  have "0 \<le> n * (n + 1) div 2" using a by (simp add: pos_imp_zdiv_nonneg_iff)
  with SlicedPmeForce_new_Inr[OF f] f
  show "\<exists>f. SlicedPmeForce_new n = Inr f \<and> numSubsets f = n
           \<and> switchingParameter f = replicate (nat (n * (n + 1) div 2)) 1
           \<and> int (length (switchingParameter f)) = n * (n + 1) div 2"
    by auto
qed

text \<open>The theorem at 0 subsets (the throw) and at 3 subsets (six entries).\<close>

theorem SlicedPmeForce_new_slices_witness:
  "SlicedPmeForce_new 0 = Inl InvalidNumberOfSubsets
   \<and> (\<exists>f. SlicedPmeForce_new 3 = Inr f \<and> numSubsets f = 3
           \<and> switchingParameter f = [1, 1, 1, 1, 1, 1])"
proof -
  have r: "replicate (nat 6) (1::real) = [1, 1, 1, 1, 1, 1]" by (simp add: numeral_eq_Suc)
  show ?thesis
    using SlicedPmeForce_new_slices [of 0] SlicedPmeForce_new_slices [of 3] r by auto
qed

text \<open>
  Claim C10 as stated fails at \<open>numSubsets = 46341\<close>: the loop bound
  \<open>numSubsets*(numSubsets+1)/2\<close> needs the product 2147534622, beyond the largest
  \<open>int\<close>, so the constructor does not create the 1073767311 entries of the claim.
\<close>

theorem SlicedPmeForce_new_overflow: "SlicedPmeForce_new 46341 = Inl IntegerOverflow"
  by (simp add: SlicedPmeForce_new_def fits_int_def INT_MAX_def INT_MIN_def)

subsection \<open>What holds in every state\<close>

lemma force_inv_new: "SlicedPmeForce_new n = Inr f \<Longrightarrow> force_inv f"
  using SlicedPmeForce_new_Inr[of n f] by (simp add: force_inv_def)

lemma force_inv_addParticle: "force_inv f \<Longrightarrow> force_inv (snd (addParticle q s f))"
  by (auto simp: force_inv_def addParticle_def ASSERT_VALID_SUBSET_def Let_def)

lemma force_inv_setParticleSubset: "force_inv f \<Longrightarrow> force_inv (snd (setParticleSubset index s f))"
proof -
  assume a: "force_inv f"
  show ?thesis
  proof (cases "fst (setParticleSubset index s f)")
    case (Inl e)
    then have "snd (setParticleSubset index s f) = f"
      by (auto simp: setParticleSubset_def split: option.splits)
    with a show ?thesis by simp
  next
    case (Inr u)
    then have ok: "0 \<le> index" "nat index < length (particles f)" "0 \<le> s" "s < numSubsets f"
      and st: "snd (setParticleSubset index s f) = f\<lparr>particles := (particles f)
                          [nat index := (particles f ! nat index)\<lparr>subsetOf := s\<rparr>]\<rparr>"
      by (auto simp: setParticleSubset_def ASSERT_VALID_INDEX_def ASSERT_VALID_SUBSET_def
               split: option.splits if_splits)
    have "\<forall>p \<in> set ((particles f)[nat index := (particles f ! nat index)\<lparr>subsetOf := s\<rparr>]).
            0 \<le> subsetOf p \<and> subsetOf p < numSubsets f"
    proof
      fix p assume "p \<in> set ((particles f)[nat index := (particles f ! nat index)\<lparr>subsetOf := s\<rparr>])"
      then have "p \<in> insert ((particles f ! nat index)\<lparr>subsetOf := s\<rparr>) (set (particles f))"
        using set_update_subset_insert by fastforce
      with a ok show "0 \<le> subsetOf p \<and> subsetOf p < numSubsets f"
        by (auto simp: force_inv_def)
    qed
    with a st show ?thesis by (simp add: force_inv_def)
  qed
qed

lemma force_inv_setParticleCharge: "force_inv f \<Longrightarrow> force_inv (snd (setParticleCharge index q f))"
proof -
  assume a: "force_inv f"
  show ?thesis
  proof (cases "fst (setParticleCharge index q f)")
    case (Inl e)
    then have "snd (setParticleCharge index q f) = f"
      by (auto simp: setParticleCharge_def split: option.splits)
    with a show ?thesis by simp
  next
    case (Inr u)
    then have ok: "0 \<le> index" "nat index < length (particles f)"
      and st: "snd (setParticleCharge index q f) = f\<lparr>particles := (particles f)
                          [nat index := (particles f ! nat index)\<lparr>charge := q\<rparr>]\<rparr>"
      by (auto simp: setParticleCharge_def ASSERT_VALID_INDEX_def split: option.splits if_splits)
    have "\<forall>p \<in> set ((particles f)[nat index := (particles f ! nat index)\<lparr>charge := q\<rparr>]).
            0 \<le> subsetOf p \<and> subsetOf p < numSubsets f"
    proof
      fix p assume "p \<in> set ((particles f)[nat index := (particles f ! nat index)\<lparr>charge := q\<rparr>])"
      then have "p \<in> insert ((particles f ! nat index)\<lparr>charge := q\<rparr>) (set (particles f))"
        using set_update_subset_insert by fastforce
      moreover have "particles f ! nat index \<in> set (particles f)" using ok by simp
      ultimately show "0 \<le> subsetOf p \<and> subsetOf p < numSubsets f"
        using a by (auto simp: force_inv_def)
    qed
    with a st show ?thesis by (simp add: force_inv_def)
  qed
qed

lemma force_inv_addException: "force_inv f \<Longrightarrow> force_inv (snd (addException p1 p2 cp replace f))"
  by (auto simp: force_inv_def addException_def Let_def split: option.splits prod.splits)

lemma force_inv_setExceptionParameters:
  "force_inv f \<Longrightarrow> force_inv (snd (setExceptionParameters index p1 p2 cp f))"
  by (auto simp: force_inv_def setExceptionParameters_def split: option.splits)

lemma force_inv_addGlobalParameter: "force_inv f \<Longrightarrow> force_inv (snd (addGlobalParameter nm v f))"
  by (auto simp: force_inv_def addGlobalParameter_def Let_def)

lemma force_inv_setGlobalParameterName:
  "force_inv f \<Longrightarrow> force_inv (snd (setGlobalParameterName index nm f))"
  by (auto simp: force_inv_def setGlobalParameterName_def split: option.splits)

lemma force_inv_setGlobalParameterDefaultValue:
  "force_inv f \<Longrightarrow> force_inv (snd (setGlobalParameterDefaultValue index v f))"
  by (auto simp: force_inv_def setGlobalParameterDefaultValue_def split: option.splits)

lemma force_inv_addSwitchingParameter:
  "force_inv f \<Longrightarrow> force_inv (snd (addSwitchingParameter nm s1 s2 f))"
  by (auto simp: force_inv_def addSwitchingParameter_def ASSERT_VALID_SUBSET_def Let_def
        SwitchingParameterInfo_new_def split: option.splits sum.splits if_splits)

lemma force_inv_setSwitchingParameter:
  "force_inv f \<Longrightarrow> force_inv (snd (setSwitchingParameter index nm s1 s2 f))"
proof -
  assume a: "force_inv f"
  show ?thesis
  proof (cases "fst (setSwitchingParameter index nm s1 s2 f)")
    case (Inl e)
    then have "snd (setSwitchingParameter index nm s1 s2 f) = f"
      by (auto simp: setSwitchingParameter_def split: option.splits sum.splits if_splits)
    with a show ?thesis by simp
  next
    case (Inr u)
    then obtain g k where ok: "0 \<le> s1" "s1 < numSubsets f" "0 \<le> s2" "s2 < numSubsets f"
        "sliceIndex s1 s2 = Inr k"
      and st: "snd (setSwitchingParameter index nm s1 s2 f) = f\<lparr>switchingParameters :=
                 (switchingParameters f)[nat index := SwitchingParameterInfo_new g s1 s2 k]\<rparr>"
      by (auto simp: setSwitchingParameter_def ASSERT_VALID_SUBSET_def
               split: option.splits sum.splits if_splits)
    have "\<forall>p \<in> set ((switchingParameters f)[nat index := SwitchingParameterInfo_new g s1 s2 k]).
           0 \<le> subset1 p \<and> subset1 p < numSubsets f \<and> 0 \<le> subset2 p \<and> subset2 p < numSubsets f
           \<and> sliceIndex (subset1 p) (subset2 p) = Inr (slice p)"
    proof
      fix p assume "p \<in> set ((switchingParameters f)[nat index := SwitchingParameterInfo_new g s1 s2 k])"
      then have "p \<in> insert (SwitchingParameterInfo_new g s1 s2 k) (set (switchingParameters f))"
        using set_update_subset_insert by fastforce
      with a ok show "0 \<le> subset1 p \<and> subset1 p < numSubsets f \<and> 0 \<le> subset2 p \<and> subset2 p < numSubsets f
           \<and> sliceIndex (subset1 p) (subset2 p) = Inr (slice p)"
        by (auto simp: force_inv_def SwitchingParameterInfo_new_def)
    qed
    with a st show ?thesis by (simp add: force_inv_def)
  qed
qed

lemma reachable_inv: "reachable f \<Longrightarrow> force_inv f"
proof (induction rule: reachable.induct)
  case (r_new n f) then show ?case by (rule force_inv_new)
qed (simp_all add: force_inv_addParticle force_inv_setParticleSubset force_inv_setParticleCharge
      force_inv_addException force_inv_setExceptionParameters force_inv_addGlobalParameter
      force_inv_setGlobalParameterName force_inv_setGlobalParameterDefaultValue
      force_inv_addSwitchingParameter force_inv_setSwitchingParameter)

subsection \<open>Particles and their subsets\<close>

text \<open>
  Claim C9, as amended.  \<open>addParticle\<close> throws "Subset out of range" exactly when the
  subset is negative or at least \<open>numSubsets\<close>.  \<open>setParticleSubset\<close> checks the particle
  index first: with a valid index it throws "Subset out of range" exactly when the subset
  is out of range, and with an invalid index it throws "Index out of range" whatever the
  subset.  A call that throws leaves the force as it was, and in every state of a force
  each particle's subset is in \<open>[0, numSubsets)\<close>.
\<close>

theorem particle_subset_checks:
  "(fst (addParticle q s f) = Inl SubsetOutOfRange \<longleftrightarrow> s < 0 \<or> numSubsets f \<le> s)
   \<and> (\<forall>e. fst (addParticle q s f) = Inl e \<longrightarrow> snd (addParticle q s f) = f)
   \<and> (0 \<le> index \<and> index < int (length (particles f)) \<longrightarrow>
        (fst (setParticleSubset index s f) = Inl SubsetOutOfRange \<longleftrightarrow> s < 0 \<or> numSubsets f \<le> s))
   \<and> (index < 0 \<or> int (length (particles f)) \<le> index \<longrightarrow>
        fst (setParticleSubset index s f) = Inl IndexOutOfRange)
   \<and> (\<forall>e. fst (setParticleSubset index s f) = Inl e \<longrightarrow> snd (setParticleSubset index s f) = f)
   \<and> (reachable f \<longrightarrow> (\<forall>p \<in> set (particles f). 0 \<le> subsetOf p \<and> subsetOf p < numSubsets f))"
proof (intro conjI)
  show "fst (addParticle q s f) = Inl SubsetOutOfRange \<longleftrightarrow> s < 0 \<or> numSubsets f \<le> s"
    by (auto simp: addParticle_def ASSERT_VALID_SUBSET_def Let_def)
  show "\<forall>e. fst (addParticle q s f) = Inl e \<longrightarrow> snd (addParticle q s f) = f"
    by (auto simp: addParticle_def ASSERT_VALID_SUBSET_def Let_def)
  show "0 \<le> index \<and> index < int (length (particles f)) \<longrightarrow>
        (fst (setParticleSubset index s f) = Inl SubsetOutOfRange \<longleftrightarrow> s < 0 \<or> numSubsets f \<le> s)"
    by (auto simp: setParticleSubset_def ASSERT_VALID_INDEX_def ASSERT_VALID_SUBSET_def)
  show "index < 0 \<or> int (length (particles f)) \<le> index \<longrightarrow>
        fst (setParticleSubset index s f) = Inl IndexOutOfRange"
    by (auto simp: setParticleSubset_def ASSERT_VALID_INDEX_def)
  show "\<forall>e. fst (setParticleSubset index s f) = Inl e \<longrightarrow> snd (setParticleSubset index s f) = f"
    by (auto simp: setParticleSubset_def split: option.splits)
  show "reachable f \<longrightarrow> (\<forall>p \<in> set (particles f). 0 \<le> subsetOf p \<and> subsetOf p < numSubsets f)"
    using reachable_inv[of f] by (simp add: force_inv_def)
qed

text \<open>
  The theorem on a force with two subsets: a particle with subset 2 is refused, one with
  subset 1 is stored, and its subset cannot be set to -1.
\<close>

lemma new_force_2:
  "SlicedPmeForce_new 2 = Inr \<lparr>numSubsets = 2, particles = [], exceptions = [],
      exceptionMap = Map.empty, globalParameters = [], switchingParameters = [],
      switchingParameter = [1, 1, 1]\<rparr>"
proof -
  have "pushOnes 0 3 [] = [1, 1, 1]" by (simp add: pushOnes_eq numeral_eq_Suc)
  then show ?thesis
    by (simp add: SlicedPmeForce_new_def fits_int_def INT_MAX_def INT_MIN_def cdiv_def)
qed

theorem particle_subset_checks_witness:
  "fst (addParticle 1 2 (projr (SlicedPmeForce_new 2))) = Inl SubsetOutOfRange
   \<and> snd (addParticle 1 2 (projr (SlicedPmeForce_new 2))) = projr (SlicedPmeForce_new 2)
   \<and> fst (addParticle 1 1 (projr (SlicedPmeForce_new 2))) = Inr 0
   \<and> fst (setParticleSubset 0 (- 1) (snd (addParticle 1 1 (projr (SlicedPmeForce_new 2)))))
       = Inl SubsetOutOfRange
   \<and> snd (setParticleSubset 0 (- 1) (snd (addParticle 1 1 (projr (SlicedPmeForce_new 2)))))
       = snd (addParticle 1 1 (projr (SlicedPmeForce_new 2)))
   \<and> fst (setParticleSubset 1 0 (snd (addParticle 1 1 (projr (SlicedPmeForce_new 2)))))
       = Inl IndexOutOfRange
   \<and> reachable (snd (addParticle 1 1 (projr (SlicedPmeForce_new 2))))
   \<and> map subsetOf (particles (snd (addParticle 1 1 (projr (SlicedPmeForce_new 2))))) = [1]"
proof -
  let ?f0 = "projr (SlicedPmeForce_new 2)"
  let ?f1 = "snd (addParticle 1 1 ?f0)"
  have n: "SlicedPmeForce_new 2 = Inr ?f0" by (simp add: new_force_2)
  have r: "reachable ?f1" by (intro reachable.intros(2) reachable.intros(1)[OF n])
  have f0: "numSubsets ?f0 = 2" "particles ?f0 = []" by (simp_all add: new_force_2)
  have f1: "numSubsets ?f1 = 2" "map subsetOf (particles ?f1) = [1]" "length (particles ?f1) = 1"
    by (simp_all add: addParticle_def ASSERT_VALID_SUBSET_def Let_def f0)
  show ?thesis
    using particle_subset_checks [of 1 2 ?f0 0]
      particle_subset_checks [of 1 1 ?f0 0]
      particle_subset_checks [of 1 "- 1" ?f1 0]
      particle_subset_checks [of 1 0 ?f1 1] r f0 f1
    by (simp add: addParticle_def ASSERT_VALID_SUBSET_def Let_def)
qed

text \<open>
  Claim C9 as stated fails for \<open>setParticleSubset(0, 5)\<close> on a force with one subset and no
  particle: the subset 5 is out of range, but the error thrown is "Index out of range",
  from the check of the index that comes first.
\<close>

theorem setParticleSubset_index_first:
  "fst (setParticleSubset 0 5 (projr (SlicedPmeForce_new 1))) = Inl IndexOutOfRange"
  by (simp add: setParticleSubset_def ASSERT_VALID_INDEX_def SlicedPmeForce_new_def
        fits_int_def INT_MAX_def INT_MIN_def)

subsection \<open>Binding a switching parameter to a slice\<close>

lemma findGlobalParameter_unknown:
  "parameter \<notin> name ` set gs \<Longrightarrow> findGlobalParameter gs parameter i = Inl (NoGlobalParameter parameter)"
  by (induction gs arbitrary: i) auto

lemma findGlobalParameter_known:
  "parameter \<in> name ` set gs \<Longrightarrow> \<exists>g. findGlobalParameter gs parameter i = Inr g"
  by (induction gs arbitrary: i) auto

lemma sliceIndex_set_eq: "{a, b} = {c, d} \<Longrightarrow> sliceIndex a b = sliceIndex c d"
proof -
  assume "{a, b} = {c, d}"
  then have "(a = c \<and> b = d) \<or> (a = d \<and> b = c)" by (auto simp: doubleton_eq_iff)
  then show ?thesis using sliceIndex_sym[of c d] by auto
qed

text \<open>
  Claim C7.  In every state of a force, \<open>addSwitchingParameter(parameter, subset1, subset2)\<close>
  throws "A switching parameter has already been defined for this slice" when a switching
  parameter is already bound to the pair \<open>{subset1, subset2}\<close>, and it throws when
  \<open>parameter\<close> is not the name of a global parameter of the force (the error is the one
  for the unknown name, unless a subset is out of range or the slice is taken, which are
  checked before); in both cases the force, and so its list of switching parameters, is
  left as it was.
\<close>

theorem addSwitchingParameter_failures:
  "reachable f \<longrightarrow>
     ((\<exists>p \<in> set (switchingParameters f). {subset1 p, subset2 p} = {s1, s2}) \<longrightarrow>
        addSwitchingParameter parameter s1 s2 f = (Inl SliceAlreadyDefined, f))
     \<and> (parameter \<notin> name ` set (globalParameters f) \<longrightarrow>
          fst (addSwitchingParameter parameter s1 s2 f)
            \<in> {Inl SubsetOutOfRange, Inl SliceAlreadyDefined, Inl (NoGlobalParameter parameter)}
          \<and> snd (addSwitchingParameter parameter s1 s2 f) = f)"
proof (intro impI conjI)
  assume r: "reachable f"
  then have inv: "force_inv f" by (rule reachable_inv)
  {
    assume "\<exists>p \<in> set (switchingParameters f). {subset1 p, subset2 p} = {s1, s2}"
    then obtain p where p: "p \<in> set (switchingParameters f)" "{subset1 p, subset2 p} = {s1, s2}"
      by blast
    from inv p(1) have v: "0 \<le> subset1 p" "subset1 p < numSubsets f" "0 \<le> subset2 p"
      "subset2 p < numSubsets f" "sliceIndex (subset1 p) (subset2 p) = Inr (slice p)"
      by (auto simp: force_inv_def)
    from p(2) have "(subset1 p = s1 \<and> subset2 p = s2) \<or> (subset1 p = s2 \<and> subset2 p = s1)"
      by (auto simp: doubleton_eq_iff)
    with v have s: "0 \<le> s1" "s1 < numSubsets f" "0 \<le> s2" "s2 < numSubsets f" by auto
    have k: "sliceIndex s1 s2 = Inr (slice p)" using sliceIndex_set_eq[OF p(2)] v(5) by simp
    have "list_ex (\<lambda>q. slice q = slice p) (switchingParameters f)"
      using p(1) by (auto simp: list_ex_iff)
    with s k show "addSwitchingParameter parameter s1 s2 f = (Inl SliceAlreadyDefined, f)"
      by (simp add: addSwitchingParameter_def ASSERT_VALID_SUBSET_def)
  }
  assume u: "parameter \<notin> name ` set (globalParameters f)"
  have g: "getGlobalParameterIndex f parameter = Inl (NoGlobalParameter parameter)"
    unfolding getGlobalParameterIndex_def using u by (rule findGlobalParameter_unknown)
  have ov: "\<exists>k. sliceIndex s1 s2 = Inr k" if "0 \<le> s1" "s1 < numSubsets f" "0 \<le> s2" "s2 < numSubsets f"
  proof -
    have "sliceIndex (min s1 s2) (max s1 s2) = Inr (tri (max s1 s2) + min s1 s2)"
      using that inv by (intro sliceIndex_ordered) (auto simp: force_inv_def)
    moreover have "sliceIndex (min s1 s2) (max s1 s2) = sliceIndex s1 s2"
      by (intro sliceIndex_set_eq) (auto simp: min_def max_def)
    ultimately show ?thesis by simp
  qed
  show "fst (addSwitchingParameter parameter s1 s2 f)
            \<in> {Inl SubsetOutOfRange, Inl SliceAlreadyDefined, Inl (NoGlobalParameter parameter)}"
    using g ov by (auto simp: addSwitchingParameter_def ASSERT_VALID_SUBSET_def split: sum.splits)
  show "snd (addSwitchingParameter parameter s1 s2 f) = f"
    using g by (auto simp: addSwitchingParameter_def ASSERT_VALID_SUBSET_def split: sum.splits)
qed

text \<open>
  The theorem on a force with two subsets, the global parameter \<open>lambda\<close> and \<open>lambda\<close>
  bound to the pair (0, 1): binding the undeclared \<open>mu\<close> to (1, 0) or to (1, 1) fails and
  changes nothing.
\<close>

lemma new_force_2_reachable: "reachable (projr (SlicedPmeForce_new 2))"
  by (rule reachable.intros(1)[of 2]) (simp add: new_force_2)

theorem addSwitchingParameter_failures_witness:
  "reachable (snd (addSwitchingParameter ''lambda'' 0 1
       (snd (addGlobalParameter ''lambda'' 1 (projr (SlicedPmeForce_new 2))))))
   \<and> addSwitchingParameter ''mu'' 1 0 (snd (addSwitchingParameter ''lambda'' 0 1
       (snd (addGlobalParameter ''lambda'' 1 (projr (SlicedPmeForce_new 2))))))
      = (Inl SliceAlreadyDefined, snd (addSwitchingParameter ''lambda'' 0 1
       (snd (addGlobalParameter ''lambda'' 1 (projr (SlicedPmeForce_new 2))))))
   \<and> snd (addSwitchingParameter ''mu'' 1 1 (snd (addSwitchingParameter ''lambda'' 0 1
       (snd (addGlobalParameter ''lambda'' 1 (projr (SlicedPmeForce_new 2)))))))
      = snd (addSwitchingParameter ''lambda'' 0 1
       (snd (addGlobalParameter ''lambda'' 1 (projr (SlicedPmeForce_new 2)))))"
proof -
  define f0 where "f0 = projr (SlicedPmeForce_new 2)"
  define f1 where "f1 = snd (addGlobalParameter ''lambda'' 1 f0)"
  define f2 where "f2 = snd (addSwitchingParameter ''lambda'' 0 1 f1)"
  have r0: "reachable f0" unfolding f0_def by (rule new_force_2_reachable)
  have r: "reachable f2"
    unfolding f2_def f1_def by (intro reachable.intros(10) reachable.intros(7) r0)
  have f0: "numSubsets f0 = 2" "switchingParameters f0 = []" "globalParameters f0 = []"
    unfolding f0_def by (simp_all add: new_force_2)
  have f1: "numSubsets f1 = 2" "switchingParameters f1 = []"
    "globalParameters f1 = [\<lparr>name = ''lambda'', defaultValue = 1\<rparr>]"
    unfolding f1_def by (simp_all add: f0 addGlobalParameter_def Let_def)
  have k: "sliceIndex 0 1 = Inr 1"
    by (simp add: sliceIndex_def fits_int_def INT_MAX_def INT_MIN_def cdiv_def)
  have g: "getGlobalParameterIndex f1 ''lambda'' = Inr 0"
    by (simp add: getGlobalParameterIndex_def f1)
  have f2: "switchingParameters f2 = [SwitchingParameterInfo_new 0 0 1 1]"
    "globalParameters f2 = [\<lparr>name = ''lambda'', defaultValue = 1\<rparr>]"
    unfolding f2_def
    by (simp_all add: addSwitchingParameter_def ASSERT_VALID_SUBSET_def f1 k g Let_def)
  have a: "\<exists>p \<in> set (switchingParameters f2). {subset1 p, subset2 p} = {1, 0}"
    by (auto simp: f2 SwitchingParameterInfo_new_def)
  have b: "''mu'' \<notin> name ` set (globalParameters f2)"
    by (simp add: f2)
  have "reachable f2
     \<and> addSwitchingParameter ''mu'' 1 0 f2 = (Inl SliceAlreadyDefined, f2)
     \<and> snd (addSwitchingParameter ''mu'' 1 1 f2) = f2"
    using addSwitchingParameter_failures [of f2 1 0 "''mu''"]
      addSwitchingParameter_failures [of f2 1 1 "''mu''"] r a b
    by blast
  then show ?thesis unfolding f2_def f1_def f0_def .
qed

subsection \<open>Exceptions\<close>

lemma indexedD1:
  "exceptions_indexed f \<Longrightarrow> exceptionMap f (a, b) = Some i \<Longrightarrow>
     0 \<le> i \<and> nat i < length (exceptions f)
     \<and> particle1 (exceptions f ! nat i) = a \<and> particle2 (exceptions f ! nat i) = b"
  unfolding exceptions_indexed_def by blast

lemma indexedD2:
  "exceptions_indexed f \<Longrightarrow> n < length (exceptions f) \<Longrightarrow>
     exceptionMap f (particle1 (exceptions f ! n), particle2 (exceptions f ! n)) = Some (int n)"
  unfolding exceptions_indexed_def by blast

lemma indexedD3:
  "exceptions_indexed f \<Longrightarrow> m < length (exceptions f) \<Longrightarrow> n < length (exceptions f) \<Longrightarrow>
     {particle1 (exceptions f ! m), particle2 (exceptions f ! m)}
       = {particle1 (exceptions f ! n), particle2 (exceptions f ! n)} \<Longrightarrow> m = n"
  unfolding exceptions_indexed_def by blast

lemma findException_Some:
  assumes "exceptions_indexed f" "findException f p1 p2 = Some (key, i)"
  shows "0 \<le> i \<and> nat i < length (exceptions f) \<and> exceptionMap f key = Some i
         \<and> (key = (p1, p2) \<or> key = (p2, p1))
         \<and> {particle1 (exceptions f ! nat i), particle2 (exceptions f ! nat i)} = {p1, p2}
         \<and> (particle1 (exceptions f ! nat i), particle2 (exceptions f ! nat i)) = key"
proof -
  from assms(2) have k: "exceptionMap f key = Some i" "key = (p1, p2) \<or> key = (p2, p1)"
    by (auto simp: findException_def split: option.splits)
  obtain a b where ab: "key = (a, b)" by (cases key)
  from indexedD1[OF assms(1), of a b i] k ab
  have d: "0 \<le> i" "nat i < length (exceptions f)" "particle1 (exceptions f ! nat i) = a"
    "particle2 (exceptions f ! nat i) = b" by auto
  from k(2) ab have "{a, b} = {p1, p2}" by auto
  with d k ab show ?thesis by simp
qed

lemma findException_None:
  assumes "exceptions_indexed f" "findException f p1 p2 = None" "n < length (exceptions f)"
  shows "{particle1 (exceptions f ! n), particle2 (exceptions f ! n)} \<noteq> {p1, p2}"
proof
  assume e: "{particle1 (exceptions f ! n), particle2 (exceptions f ! n)} = {p1, p2}"
  from assms(2) have none: "exceptionMap f (p1, p2) = None" "exceptionMap f (p2, p1) = None"
    by (auto simp: findException_def split: option.splits)
  from e have "(particle1 (exceptions f ! n), particle2 (exceptions f ! n)) = (p1, p2)
      \<or> (particle1 (exceptions f ! n), particle2 (exceptions f ! n)) = (p2, p1)"
    by (auto simp: doubleton_eq_iff)
  with indexedD2[OF assms(1) assms(3)] none show False by auto
qed

lemma findException_found:
  assumes "exceptions_indexed f" "n < length (exceptions f)"
    "{particle1 (exceptions f ! n), particle2 (exceptions f ! n)} = {p1, p2}"
  shows "\<exists>key. findException f p1 p2 = Some (key, int n)"
proof (cases "findException f p1 p2")
  case None
  with findException_None[OF assms(1) None assms(2)] assms(3) show ?thesis by simp
next
  case (Some r)
  obtain key i where r: "r = (key, i)" by (cases r)
  from findException_Some[OF assms(1) Some[unfolded r]]
  have i: "0 \<le> i" "nat i < length (exceptions f)"
    "{particle1 (exceptions f ! nat i), particle2 (exceptions f ! nat i)} = {p1, p2}" by auto
  from indexedD3[OF assms(1) i(2) assms(2)] i(3) assms(3) have "nat i = n" by simp
  with i(1) have "i = int n" by simp
  with Some r show ?thesis by simp
qed

lemma addException_replace_indexed:
  assumes ix: "exceptions_indexed f" and fe: "findException f p1 p2 = Some (key, i)"
  shows "exceptions_indexed
           (f\<lparr>exceptions := (exceptions f)[nat i := \<lparr>particle1 = p1, particle2 = p2, chargeProd = cp\<rparr>],
              exceptionMap := ((exceptionMap f)(key := None))((p1, p2) \<mapsto> i)\<rparr>)"
proof -
  let ?es = "exceptions f" and ?m = "exceptionMap f"
  let ?new = "\<lparr>particle1 = p1, particle2 = p2, chargeProd = cp\<rparr>"
  let ?es' = "?es[nat i := ?new]" and ?m' = "(?m(key := None))((p1, p2) \<mapsto> i)"
  from findException_Some[OF ix fe]
  have i: "0 \<le> i" "nat i < length ?es" "?m key = Some i" "key = (p1, p2) \<or> key = (p2, p1)"
    "{particle1 (?es ! nat i), particle2 (?es ! nat i)} = {p1, p2}"
    "(particle1 (?es ! nat i), particle2 (?es ! nat i)) = key" by auto
  have pair': "particle1 (?es' ! n) = (if n = nat i then p1 else particle1 (?es ! n))
      \<and> particle2 (?es' ! n) = (if n = nat i then p2 else particle2 (?es ! n))"
    if "n < length ?es" for n using that by (simp add: nth_list_update)
  have c1: "0 \<le> j \<and> nat j < length ?es' \<and> particle1 (?es' ! nat j) = a \<and> particle2 (?es' ! nat j) = b"
    if h: "?m' (a, b) = Some j" for a b j
  proof (cases "(a, b) = (p1, p2)")
    case True
    with h have "j = i" by simp
    with True i show ?thesis by simp
  next
    case False
    with h have nk: "(a, b) \<noteq> key" and old: "?m (a, b) = Some j" by (auto split: if_splits)
    from indexedD1[OF ix old] have j: "0 \<le> j" "nat j < length ?es"
      "particle1 (?es ! nat j) = a" "particle2 (?es ! nat j) = b" by auto
    have "nat j \<noteq> nat i" using j i(6) nk by auto
    with j pair'[of "nat j"] show ?thesis by simp
  qed
  have c2: "?m' (particle1 (?es' ! n), particle2 (?es' ! n)) = Some (int n)"
    if n: "n < length ?es'" for n
  proof (cases "n = nat i")
    case True
    with i n show ?thesis by simp
  next
    case False
    from n have n': "n < length ?es" by simp
    let ?p = "(particle1 (?es ! n), particle2 (?es ! n))"
    have old: "?m ?p = Some (int n)" using indexedD2[OF ix n'] .
    have nk: "?p \<noteq> key" using old i(3) False i(1) by auto
    have np: "?p \<noteq> (p1, p2)"
    proof
      assume "?p = (p1, p2)"
      then have "{particle1 (?es ! n), particle2 (?es ! n)}
           = {particle1 (?es ! nat i), particle2 (?es ! nat i)}" using i(5) by auto
      from indexedD3[OF ix n' i(2) this] False show False by simp
    qed
    have "?m' ?p = ?m ?p" by (simp only: fun_upd_apply nk np if_False)
    moreover have "(particle1 (?es' ! n), particle2 (?es' ! n)) = ?p"
      using pair'[OF n'] False by simp
    ultimately show ?thesis using old by (simp only:)
  qed
  have c3: "m = n"
    if mn: "m < length ?es'" "n < length ?es'"
      "{particle1 (?es' ! m), particle2 (?es' ! m)} = {particle1 (?es' ! n), particle2 (?es' ! n)}"
    for m n
  proof -
    from mn have l: "m < length ?es" "n < length ?es" by simp_all
    have up: "{particle1 (?es' ! k), particle2 (?es' ! k)} = {particle1 (?es ! k), particle2 (?es ! k)}"
      if "k < length ?es" for k
      using pair'[OF that] i(5) by (cases "k = nat i") auto
    from mn(3) up[OF l(1)] up[OF l(2)]
    have "{particle1 (?es ! m), particle2 (?es ! m)} = {particle1 (?es ! n), particle2 (?es ! n)}"
      by simp
    from indexedD3[OF ix l this] show ?thesis .
  qed
  show ?thesis
    unfolding exceptions_indexed_def
    using c1 c2 c3 by (simp del: fun_upd_apply)
qed


lemma addException_append_indexed:
  assumes ix: "exceptions_indexed f" and fe: "findException f p1 p2 = None"
  shows "exceptions_indexed
           (f\<lparr>exceptions := exceptions f @ [\<lparr>particle1 = p1, particle2 = p2, chargeProd = cp\<rparr>],
              exceptionMap := (exceptionMap f)((p1, p2) \<mapsto> int (length (exceptions f)))\<rparr>)"
proof -
  let ?es = "exceptions f" and ?m = "exceptionMap f"
  let ?new = "\<lparr>particle1 = p1, particle2 = p2, chargeProd = cp\<rparr>"
  let ?es' = "?es @ [?new]" and ?m' = "?m((p1, p2) \<mapsto> int (length ?es))"
  from fe have none: "?m (p1, p2) = None" "?m (p2, p1) = None"
    by (auto simp: findException_def split: option.splits)
  have pair': "particle1 (?es' ! n) = (if n = length ?es then p1 else particle1 (?es ! n))
      \<and> particle2 (?es' ! n) = (if n = length ?es then p2 else particle2 (?es ! n))"
    if "n \<le> length ?es" for n
    using that by (simp add: nth_append)
  have c1: "0 \<le> j \<and> nat j < length ?es' \<and> particle1 (?es' ! nat j) = a \<and> particle2 (?es' ! nat j) = b"
    if h: "?m' (a, b) = Some j" for a b j
  proof (cases "(a, b) = (p1, p2)")
    case True
    with h have "j = int (length ?es)" by simp
    with True show ?thesis by simp
  next
    case False
    with h have old: "?m (a, b) = Some j" by (auto split: if_splits)
    from indexedD1[OF ix old] show ?thesis by (simp add: nth_append)
  qed
  have c2: "?m' (particle1 (?es' ! n), particle2 (?es' ! n)) = Some (int n)"
    if n: "n < length ?es'" for n
  proof (cases "n = length ?es")
    case True
    then show ?thesis by simp
  next
    case False
    with n have n': "n < length ?es" by simp
    let ?p = "(particle1 (?es ! n), particle2 (?es ! n))"
    have old: "?m ?p = Some (int n)" using indexedD2[OF ix n'] .
    have np: "?p \<noteq> (p1, p2)" using old none by auto
    have "?m' ?p = ?m ?p" by (simp only: fun_upd_apply np if_False)
    moreover have "(particle1 (?es' ! n), particle2 (?es' ! n)) = ?p"
      using pair'[of n] False n' by simp
    ultimately show ?thesis using old by (simp only:)
  qed
  have c3: "m = n"
    if mn: "m < length ?es'" "n < length ?es'"
      "{particle1 (?es' ! m), particle2 (?es' ! m)} = {particle1 (?es' ! n), particle2 (?es' ! n)}"
    for m n
  proof -
    have fresh: "{particle1 (?es ! k), particle2 (?es ! k)} \<noteq> {p1, p2}" if "k < length ?es" for k
      using findException_None[OF ix fe that] .
    have up: "{particle1 (?es' ! k), particle2 (?es' ! k)}
        = (if k = length ?es then {p1, p2} else {particle1 (?es ! k), particle2 (?es ! k)})"
      if "k \<le> length ?es" for k
      using pair'[OF that] by simp
    from mn have le: "m \<le> length ?es" "n \<le> length ?es" by simp_all
    have e: "(if m = length ?es then {p1, p2} else {particle1 (?es ! m), particle2 (?es ! m)})
        = (if n = length ?es then {p1, p2} else {particle1 (?es ! n), particle2 (?es ! n)})"
      using mn(3) unfolding up[OF le(1)] up[OF le(2)] .
    show ?thesis
    proof (cases "m = length ?es")
      case True
      show ?thesis
      proof (cases "n = length ?es")
        case True with \<open>m = length ?es\<close> show ?thesis by simp
      next
        case False
        with le have "n < length ?es" by simp
        from fresh[OF this] e True False show ?thesis by simp
      qed
    next
      case False
      with le have m': "m < length ?es" by simp
      show ?thesis
      proof (cases "n = length ?es")
        case True
        from fresh[OF m'] e True False show ?thesis by simp
      next
        case False
        with le have n': "n < length ?es" by simp
        from e \<open>m \<noteq> length ?es\<close> False have "{particle1 (?es ! m), particle2 (?es ! m)}
            = {particle1 (?es ! n), particle2 (?es ! n)}" by simp
        from indexedD3[OF ix m' n' this] show ?thesis .
      qed
    qed
  qed
  show ?thesis
    unfolding exceptions_indexed_def
    using c1 c2 c3 by (simp del: fun_upd_apply)
qed

lemma addException_indexed:
  assumes "exceptions_indexed f"
  shows "exceptions_indexed (snd (addException p1 p2 cp replace f))"
proof (cases "findException f p1 p2")
  case None
  with addException_append_indexed[OF assms None, of cp] show ?thesis
    by (simp add: addException_def Let_def)
next
  case (Some r)
  obtain key i where r: "r = (key, i)" by (cases r)
  with addException_replace_indexed[OF assms Some[unfolded r], of cp] Some assms
  show ?thesis by (simp add: addException_def)
qed

lemma new_force_indexed: "SlicedPmeForce_new n = Inr f \<Longrightarrow> exceptions_indexed f"
  using SlicedPmeForce_new_Inr[of n f] by (simp add: exceptions_indexed_def)

text \<open>
  Claim C5.  In every state of a force whose exception map indexes its exception list
  (the state the constructor returns is one, and \<open>addException\<close> keeps it so), a call
  \<open>addException(p1, p2, chargeProd, replace)\<close> does this: if an exception
  exists for the unordered pair \<open>{p1, p2}\<close> and \<open>replace\<close> is false, it throws and the force
  is unchanged; if one exists and \<open>replace\<close> is true, it overwrites that exception in
  place, returns its index, and the list keeps its length; if none exists, it appends the
  exception and returns the new index.  The resulting state again has at most one
  exception for each unordered pair.
\<close>

theorem addException_unique_pairs:
  "exceptions_indexed f \<longrightarrow>
     ((\<exists>e \<in> set (exceptions f). {particle1 e, particle2 e} = {p1, p2}) \<and> \<not> replace \<longrightarrow>
        addException p1 p2 cp replace f = (Inl (ExceptionExists p1 p2), f))
     \<and> (\<forall>n < length (exceptions f).
          {particle1 (exceptions f ! n), particle2 (exceptions f ! n)} = {p1, p2} \<and> replace \<longrightarrow>
            fst (addException p1 p2 cp replace f) = Inr (int n)
            \<and> exceptions (snd (addException p1 p2 cp replace f))
                = (exceptions f)[n := \<lparr>particle1 = p1, particle2 = p2, chargeProd = cp\<rparr>]
            \<and> length (exceptions (snd (addException p1 p2 cp replace f))) = length (exceptions f))
     \<and> ((\<forall>e \<in> set (exceptions f). {particle1 e, particle2 e} \<noteq> {p1, p2}) \<longrightarrow>
          fst (addException p1 p2 cp replace f) = Inr (int (length (exceptions f)))
          \<and> exceptions (snd (addException p1 p2 cp replace f))
              = exceptions f @ [\<lparr>particle1 = p1, particle2 = p2, chargeProd = cp\<rparr>])
     \<and> exceptions_indexed (snd (addException p1 p2 cp replace f))"
proof (intro impI conjI allI)
  assume ix: "exceptions_indexed f"
  show "exceptions_indexed (snd (addException p1 p2 cp replace f))"
    using ix by (rule addException_indexed)
  {
    assume "(\<exists>e \<in> set (exceptions f). {particle1 e, particle2 e} = {p1, p2}) \<and> \<not> replace"
    then obtain n where n: "n < length (exceptions f)"
      "{particle1 (exceptions f ! n), particle2 (exceptions f ! n)} = {p1, p2}" and nr: "\<not> replace"
      by (auto simp: in_set_conv_nth)
    from findException_found[OF ix n] obtain key where "findException f p1 p2 = Some (key, int n)" ..
    with nr show "addException p1 p2 cp replace f = (Inl (ExceptionExists p1 p2), f)"
      by (simp add: addException_def)
  }
  {
    fix n
    assume n: "n < length (exceptions f)"
      and h: "{particle1 (exceptions f ! n), particle2 (exceptions f ! n)} = {p1, p2} \<and> replace"
    from findException_found[OF ix n] h obtain key where "findException f p1 p2 = Some (key, int n)"
      by blast
    with h show "fst (addException p1 p2 cp replace f) = Inr (int n)"
      and "exceptions (snd (addException p1 p2 cp replace f))
                = (exceptions f)[n := \<lparr>particle1 = p1, particle2 = p2, chargeProd = cp\<rparr>]"
      and "length (exceptions (snd (addException p1 p2 cp replace f))) = length (exceptions f)"
      by (simp_all add: addException_def)
  }
  {
    assume none: "\<forall>e \<in> set (exceptions f). {particle1 e, particle2 e} \<noteq> {p1, p2}"
    have "findException f p1 p2 = None"
    proof (cases "findException f p1 p2")
      case (Some r)
      obtain key i where r: "r = (key, i)" by (cases r)
      from findException_Some[OF ix Some[unfolded r]] none show ?thesis
        using nth_mem by blast
    qed simp
    then show "fst (addException p1 p2 cp replace f) = Inr (int (length (exceptions f)))"
      and "exceptions (snd (addException p1 p2 cp replace f))
              = exceptions f @ [\<lparr>particle1 = p1, particle2 = p2, chargeProd = cp\<rparr>]"
      by (simp_all add: addException_def Let_def)
  }
qed

text \<open>
  The theorem on a force with the one exception (0, 1): adding (1, 0) without \<open>replace\<close>
  throws, with \<open>replace\<close> it overwrites exception 0, and adding (0, 2) appends.
\<close>

lemma new_force_1:
  "SlicedPmeForce_new 1 = Inr \<lparr>numSubsets = 1, particles = [], exceptions = [],
      exceptionMap = Map.empty, globalParameters = [], switchingParameters = [],
      switchingParameter = [1]\<rparr>"
proof -
  have "pushOnes 0 1 [] = [1]" by (simp add: pushOnes_eq)
  then show ?thesis
    by (simp add: SlicedPmeForce_new_def fits_int_def INT_MAX_def INT_MIN_def cdiv_def)
qed

theorem addException_unique_pairs_witness:
  "exceptions_indexed (snd (addException 0 1 2 False (projr (SlicedPmeForce_new 1))))
   \<and> addException 1 0 3 False (snd (addException 0 1 2 False (projr (SlicedPmeForce_new 1))))
       = (Inl (ExceptionExists 1 0), snd (addException 0 1 2 False (projr (SlicedPmeForce_new 1))))
   \<and> fst (addException 1 0 3 True (snd (addException 0 1 2 False (projr (SlicedPmeForce_new 1)))))
       = Inr 0
   \<and> exceptions (snd (addException 1 0 3 True
         (snd (addException 0 1 2 False (projr (SlicedPmeForce_new 1))))))
       = [\<lparr>particle1 = 1, particle2 = 0, chargeProd = 3\<rparr>]
   \<and> fst (addException 0 2 3 False (snd (addException 0 1 2 False (projr (SlicedPmeForce_new 1)))))
       = Inr 1"
proof -
  define f0 where "f0 = projr (SlicedPmeForce_new 1)"
  define f1 where "f1 = snd (addException 0 1 2 False f0)"
  have n: "SlicedPmeForce_new 1 = Inr f0" unfolding f0_def by (simp add: new_force_1)
  have i0: "exceptions_indexed f0" using n by (rule new_force_indexed)
  have e0: "exceptions f0 = []" unfolding f0_def by (simp add: new_force_1)
  have i1: "exceptions_indexed f1"
    unfolding f1_def using addException_unique_pairs [of f0 0 1 False 2] i0 by blast
  have e1: "exceptions f1 = [\<lparr>particle1 = 0, particle2 = 1, chargeProd = 2\<rparr>]"
    unfolding f1_def using addException_unique_pairs [of f0 0 1 False 2] i0 e0 by simp
  have a: "\<exists>e \<in> set (exceptions f1). {particle1 e, particle2 e} = {1, 0}"
    by (auto simp: e1)
  have b: "\<forall>e \<in> set (exceptions f1). {particle1 e, particle2 e} \<noteq> {0, 2}"
    by (auto simp: e1 doubleton_eq_iff)
  have c: "{particle1 (exceptions f1 ! 0), particle2 (exceptions f1 ! 0)} = {1, 0}"
    by (auto simp: e1)
  have "exceptions_indexed f1
     \<and> addException 1 0 3 False f1 = (Inl (ExceptionExists 1 0), f1)
     \<and> fst (addException 1 0 3 True f1) = Inr 0
     \<and> exceptions (snd (addException 1 0 3 True f1)) = [\<lparr>particle1 = 1, particle2 = 0, chargeProd = 3\<rparr>]
     \<and> fst (addException 0 2 3 False f1) = Inr 1"
    using addException_unique_pairs [of f1 1 0 False 3]
      addException_unique_pairs [of f1 1 0 True 3]
      addException_unique_pairs [of f1 0 2 False 3] i1 a b c e1
    by simp
  then show ?thesis unfolding f1_def f0_def .
qed

text \<open>
  The code against the claim: \<open>setExceptionParameters\<close> rewrites the particles of an
  exception and leaves \<open>exceptionMap\<close> alone, so that \<open>addException\<close>, which looks the pair
  up in the map, no longer sees the list.  Once exception 0, added for (0, 1), has been
  set to the pair (2, 3), the call \<open>addException(2, 3, 1.0, false)\<close> does not throw but
  appends a second exception for the pair (2, 3), and the call
  \<open>addException(0, 1, 1.0, false)\<close> throws although no exception for (0, 1) exists.
\<close>

theorem addException_stale_map:
  "fst (addException 2 3 1 False (snd (setExceptionParameters 0 2 3 1
      (snd (addException 0 1 1 False (projr (SlicedPmeForce_new 1))))))) = Inr 1
   \<and> map (\<lambda>e. (particle1 e, particle2 e))
        (exceptions (snd (addException 2 3 1 False (snd (setExceptionParameters 0 2 3 1
           (snd (addException 0 1 1 False (projr (SlicedPmeForce_new 1)))))))))
      = [(2, 3), (2, 3)]
   \<and> map (\<lambda>e. (particle1 e, particle2 e))
        (exceptions (snd (setExceptionParameters 0 2 3 1
           (snd (addException 0 1 1 False (projr (SlicedPmeForce_new 1)))))))
      = [(2, 3)]
   \<and> fst (addException 0 1 1 False (snd (setExceptionParameters 0 2 3 1
      (snd (addException 0 1 1 False (projr (SlicedPmeForce_new 1))))))) = Inl (ExceptionExists 0 1)"
  by (simp add: new_force_1 addException_def findException_def setExceptionParameters_def
        ASSERT_VALID_INDEX_def Let_def)

section \<open>Properties of the legal grid dimension\<close>

lemma is_prime_divisors:
  assumes "is_prime p" "d dvd p" "0 < d"
  shows "d = 1 \<or> d = p"
proof -
  from assms(1) have p: "1 < p" and nd: "\<And>k. 2 \<le> k \<Longrightarrow> k < p \<Longrightarrow> \<not> k dvd p"
    by (auto simp: is_prime_def)
  have "d \<le> p" using assms(2) p by (intro zdvd_imp_le) auto
  with nd[of d] assms show ?thesis by (cases "d = 1"; cases "d = p") auto
qed

lemma is_prime_dvd_mult:
  assumes "is_prime p" "p dvd a * b"
  shows "p dvd a \<or> p dvd b"
proof (cases "p dvd a")
  case False
  from assms(1) have p: "1 < p" by (simp add: is_prime_def)
  have g0: "0 < gcd p a" using p by simp
  have "gcd p a = 1 \<or> gcd p a = p"
    using is_prime_divisors[OF assms(1) _ g0] by simp
  moreover have "gcd p a \<noteq> p" using False by (metis gcd_dvd2)
  ultimately have "coprime p a" by (simp add: coprime_iff_gcd_eq_1)
  then have "p dvd b" using assms(2) by (simp add: coprime_dvd_mult_right_iff)
  then show ?thesis ..
qed simp

lemma is_prime_dvd_power:
  "is_prime p \<Longrightarrow> p dvd f ^ e \<Longrightarrow> p dvd f"
proof (induction e)
  case 0
  then show ?case by (simp add: is_prime_def)
next
  case (Suc e)
  then show ?case using is_prime_dvd_mult[of p f "f ^ e"] by auto
qed

lemma prime_divisor_exists:
  "1 < n \<Longrightarrow> \<exists>p. is_prime p \<and> p dvd n"
proof (induction "nat n" arbitrary: n rule: less_induct)
  case less
  show ?case
  proof (cases "is_prime n")
    case True
    then show ?thesis by auto
  next
    case False
    with less.prems obtain d where d: "2 \<le> d" "d < n" "d dvd n"
      by (auto simp: is_prime_def)
    then have "nat d < nat n" "1 < d" by simp_all
    from less.hyps[OF this] obtain p where "is_prime p" "p dvd d" by blast
    with d(3) show ?thesis by (meson dvd_trans)
  qed
qed

lemma stripFactor_props:
  "0 < u \<Longrightarrow> 1 < f \<Longrightarrow>
     0 < stripFactor u f \<and> (\<exists>e. u = stripFactor u f * f ^ e)
     \<and> (stripFactor u f = 1 \<or> \<not> f dvd stripFactor u f)"
proof (induction u f rule: stripFactor.induct)
  case (1 u f)
  show ?case
  proof (cases "u > 1 \<and> u mod f = 0")
    case True
    with "1.prems" have c: "1 < f \<and> u > 1 \<and> u mod f = 0" by simp
    then have eq: "stripFactor u f = stripFactor (u div f) f"
      by (subst stripFactor.simps) simp
    have pos: "0 < u div f" using c by (simp add: pos_imp_zdiv_pos_iff zdvd_imp_le mod_eq_0_iff_dvd)
    from "1.IH"[OF c pos "1.prems"(2)]
    obtain e where ih: "0 < stripFactor (u div f) f" "u div f = stripFactor (u div f) f * f ^ e"
      "stripFactor (u div f) f = 1 \<or> \<not> f dvd stripFactor (u div f) f" by blast
    have "u = (u div f) * f" using c by (simp add: mod_eq_0_iff_dvd)
    also have "\<dots> = (stripFactor (u div f) f * f ^ e) * f"
      by (rule arg_cong[where f = "\<lambda>x. x * f", OF ih(2)])
    also have "\<dots> = stripFactor (u div f) f * f ^ Suc e" by simp
    finally have "u = stripFactor (u div f) f * f ^ Suc e" .
    with ih eq show ?thesis by metis
  next
    case False
    then have eq: "stripFactor u f = u" by (subst stripFactor.simps) auto
    have "u = u * f ^ 0" by simp
    moreover have "u = 1 \<or> \<not> f dvd u" using False "1.prems" by (auto simp: mod_eq_0_iff_dvd)
    ultimately show ?thesis using "1.prems" eq by metis
  qed
qed


lemma factorLoop_props:
  "0 < u \<Longrightarrow> 2 \<le> f \<Longrightarrow> m < INT_MAX \<Longrightarrow>
     \<exists>u'. factorLoop u f m = Inr u' \<and> 0 < u' \<and> u' dvd u
        \<and> (u' = 1 \<or> (\<forall>d. f \<le> d \<and> d \<le> m \<longrightarrow> \<not> d dvd u'))
        \<and> (\<forall>p. is_prime p \<and> p dvd u \<longrightarrow> p dvd u' \<or> p \<le> m)"
proof (induction u f m rule: factorLoop.induct)
  case (1 u f m)
  show ?case
  proof (cases "f \<le> m")
    case False
    then have "factorLoop u f m = Inr u" by (subst factorLoop.simps) simp
    with False "1.prems" show ?thesis by auto
  next
    case True
    with "1.prems" have ne: "f \<noteq> INT_MAX" by simp
    let ?u1 = "stripFactor u f"
    have eq: "factorLoop u f m = factorLoop ?u1 (f + 1) m"
      using True ne by (subst factorLoop.simps) simp
    from stripFactor_props[of u f] "1.prems" obtain e where
      s: "0 < ?u1" "u = ?u1 * f ^ e" "?u1 = 1 \<or> \<not> f dvd ?u1" by auto
    from "1.IH"[OF True ne s(1) _ "1.prems"(3)] "1.prems"(2)
    obtain u' where ih: "factorLoop ?u1 (f + 1) m = Inr u'" "0 < u'" "u' dvd ?u1"
      "u' = 1 \<or> (\<forall>d. f + 1 \<le> d \<and> d \<le> m \<longrightarrow> \<not> d dvd u')"
      "\<forall>p. is_prime p \<and> p dvd ?u1 \<longrightarrow> p dvd u' \<or> p \<le> m" by auto
    have d1: "u' dvd u" using ih(3) s(2) by (metis dvd_mult2)
    have d2: "u' = 1 \<or> (\<forall>d. f \<le> d \<and> d \<le> m \<longrightarrow> \<not> d dvd u')"
    proof (cases "u' = 1")
      case False
      with ih(4) have far: "\<forall>d. f + 1 \<le> d \<and> d \<le> m \<longrightarrow> \<not> d dvd u'" by simp
      have "?u1 \<noteq> 1" using False ih(2,3) by auto
      with s(3) have "\<not> f dvd ?u1" by simp
      with ih(3) have "\<not> f dvd u'" by (meson dvd_trans)
      with far have "\<forall>d. f \<le> d \<and> d \<le> m \<longrightarrow> \<not> d dvd u'"
        by (metis add1_zle_eq order_le_less)
      then show ?thesis ..
    qed simp
    have d3: "\<forall>p. is_prime p \<and> p dvd u \<longrightarrow> p dvd u' \<or> p \<le> m"
    proof (intro allI impI)
      fix p assume p: "is_prime p \<and> p dvd u"
      then have "p dvd ?u1 * f ^ e" using s(2) by simp
      with p have "p dvd ?u1 \<or> p dvd f ^ e" by (intro is_prime_dvd_mult) auto
      then show "p dvd u' \<or> p \<le> m"
      proof
        assume "p dvd ?u1" with ih(5) p show ?thesis by blast
      next
        assume "p dvd f ^ e"
        with p have "p dvd f" by (intro is_prime_dvd_power[of p f e]) auto
        then have "p \<le> f" using "1.prems"(2) by (intro zdvd_imp_le) auto
        with True show ?thesis by simp
      qed
    qed
    from eq ih(1,2) d1 d2 d3 show ?thesis by auto
  qed
qed

lemma factorLoop_legal:
  assumes "1 \<le> n" "m < INT_MAX"
  shows "\<exists>u'. factorLoop n 2 m = Inr u' \<and> (u' = 1 \<longleftrightarrow> legal m n)"
proof -
  from factorLoop_props[of n 2 m] assms
  obtain u' where u: "factorLoop n 2 m = Inr u'" "0 < u'" "u' dvd n"
    "u' = 1 \<or> (\<forall>d. 2 \<le> d \<and> d \<le> m \<longrightarrow> \<not> d dvd u')"
    "\<forall>p. is_prime p \<and> p dvd n \<longrightarrow> p dvd u' \<or> p \<le> m" by auto
  have "legal m n" if "u' = 1"
    unfolding legal_def
  proof (intro ballI impI)
    fix p assume "p \<in> {2..n}" and p: "is_prime p \<and> p dvd n"
    with u(5) have "p dvd u' \<or> p \<le> m" by blast
    moreover have "\<not> p dvd u'" using that p by (auto simp: is_prime_def)
    ultimately show "p \<le> m" by simp
  qed
  moreover have "u' = 1" if l: "legal m n"
  proof (rule ccontr)
    assume "u' \<noteq> 1"
    with u(2) have "1 < u'" by simp
    from prime_divisor_exists[OF this] obtain p where p: "is_prime p" "p dvd u'" by blast
    have pn: "p dvd n" using p(2) u(3) by (meson dvd_trans)
    have "2 \<le> p" using p(1) by (simp add: is_prime_def)
    moreover have "p \<le> n" using pn assms(1) by (intro zdvd_imp_le) auto
    ultimately have "p \<le> m" using l p(1) pn by (auto simp: legal_def)
    with \<open>2 \<le> p\<close> u(4) \<open>u' \<noteq> 1\<close> p(2) show False by blast
  qed
  ultimately show ?thesis using u(1) by blast
qed

lemma legalLoop_least:
  assumes "m < INT_MAX" "1 \<le> minimum" "minimum \<le> n" "n \<le> INT_MAX" "legal m n"
  shows "\<exists>r. legalLoop minimum m = Inr r \<and> minimum \<le> r \<and> r \<le> n \<and> legal m r
           \<and> (\<forall>k. minimum \<le> k \<and> k < r \<longrightarrow> \<not> legal m k)"
  using assms(2,3)
proof (induction "nat (n - minimum)" arbitrary: minimum rule: less_induct)
  case less
  from factorLoop_legal[OF less.prems(1) assms(1)]
  obtain u' where u: "factorLoop minimum 2 m = Inr u'" "u' = 1 \<longleftrightarrow> legal m minimum" by blast
  show ?case
  proof (cases "legal m minimum")
    case True
    with u have "legalLoop minimum m = Inr minimum" by (subst legalLoop.simps) simp
    with True less.prems show ?thesis by auto
  next
    case False
    with assms(5) less.prems have lt: "minimum < n" by (cases "minimum = n") auto
    with assms(4) have "\<not> minimum \<ge> INT_MAX" by simp
    with u False have eq: "legalLoop minimum m = legalLoop (minimum + 1) m"
      by (subst legalLoop.simps) simp
    have "nat (n - (minimum + 1)) < nat (n - minimum)" using lt by simp
    from less.hyps[OF this] less.prems lt
    obtain r where r: "legalLoop (minimum + 1) m = Inr r" "minimum + 1 \<le> r" "r \<le> n" "legal m r"
      "\<forall>k. minimum + 1 \<le> k \<and> k < r \<longrightarrow> \<not> legal m k" by auto
    have "\<forall>k. minimum \<le> k \<and> k < r \<longrightarrow> \<not> legal m k"
    proof (intro allI impI)
      fix k assume k: "minimum \<le> k \<and> k < r"
      show "\<not> legal m k"
      proof (cases "k = minimum")
        case True with False show ?thesis by simp
      next
        case False with k r(5) show ?thesis by simp
      qed
    qed
    with eq r show ?thesis by auto
  qed
qed

lemma legalLoop_no_prime:
  "maxPrimeFactor < 2 \<Longrightarrow> 2 \<le> minimum \<Longrightarrow> legalLoop minimum maxPrimeFactor = Inl IntegerOverflow"
proof (induction minimum maxPrimeFactor rule: legalLoop.induct)
  case (1 minimum maxPrimeFactor)
  have f: "factorLoop minimum 2 maxPrimeFactor = Inr minimum"
    using "1.prems" by (subst factorLoop.simps) simp
  show ?case
  proof (cases "minimum \<ge> INT_MAX")
    case True
    with f "1.prems" show ?thesis by (subst legalLoop.simps) simp
  next
    case False
    with f "1.prems" have "legalLoop minimum maxPrimeFactor = legalLoop (minimum + 1) maxPrimeFactor"
      by (subst legalLoop.simps) simp
    moreover have "legalLoop (minimum + 1) maxPrimeFactor = Inl IntegerOverflow"
      using "1.IH"[OF f _ False] "1.prems" by simp
    ultimately show ?thesis by simp
  qed
qed

lemma legal_power_of_two: "2 \<le> m \<Longrightarrow> legal m (2 ^ k)"
  unfolding legal_def
proof (intro ballI impI)
  fix p :: int assume "2 \<le> m" and p: "is_prime p \<and> p dvd 2 ^ k"
  then have "p dvd 2" by (intro is_prime_dvd_power[of p 2 k]) auto
  then have "p \<le> 2" by (intro zdvd_imp_le) auto
  with \<open>2 \<le> m\<close> show "p \<le> m" by simp
qed


lemma factorLoop_values:
  "factorLoop 100 2 7 = Inr 1" "factorLoop 101 2 7 = Inr 101" "factorLoop 102 2 7 = Inr 17"
  "factorLoop 103 2 7 = Inr 103" "factorLoop 104 2 7 = Inr 13" "factorLoop 105 2 7 = Inr 1"
  by (simp_all add: factorLoop.simps stripFactor.simps INT_MAX_def)

lemma findLegalDimension_100: "findLegalDimension 100 7 = Inr 100"
  by (simp add: findLegalDimension_def legalLoop.simps[of 100] factorLoop_values)

lemma findLegalDimension_101: "findLegalDimension 101 7 = Inr 105"
  by (simp add: findLegalDimension_def legalLoop.simps[of 101] legalLoop.simps[of 102]
        legalLoop.simps[of 103] legalLoop.simps[of 104] legalLoop.simps[of 105]
        factorLoop_values INT_MAX_def)

text \<open>
  Claim C3, as amended.  For every \<open>minimum \<ge> 1\<close> and every \<open>maxPrimeFactor\<close> below the
  largest \<open>int\<close>, if some integer from \<open>minimum\<close> up to the largest \<open>int\<close> has no prime factor
  above \<open>maxPrimeFactor\<close>, then \<open>findLegalDimension(minimum, maxPrimeFactor)\<close> returns the
  smallest such integer; this is so whenever \<open>maxPrimeFactor \<ge> 2\<close> and \<open>minimum\<close> is at most
  \<open>2^30\<close>.  In particular \<open>findLegalDimension(100, 7)\<close> returns 100 and
  \<open>findLegalDimension(101, 7)\<close> returns 105.
\<close>

theorem findLegalDimension_least:
  "(maxPrimeFactor < INT_MAX \<and> 1 \<le> minimum \<and> minimum \<le> n \<and> n \<le> INT_MAX
      \<and> legal maxPrimeFactor n \<longrightarrow>
      (\<exists>r. findLegalDimension minimum maxPrimeFactor = Inr r \<and> minimum \<le> r \<and> r \<le> n
           \<and> legal maxPrimeFactor r
           \<and> (\<forall>k. minimum \<le> k \<and> k < r \<longrightarrow> \<not> legal maxPrimeFactor k)))
   \<and> (2 \<le> maxPrimeFactor \<and> maxPrimeFactor < INT_MAX \<and> 1 \<le> minimum \<and> minimum \<le> 2 ^ 30 \<longrightarrow>
      (\<exists>r. findLegalDimension minimum maxPrimeFactor = Inr r \<and> minimum \<le> r
           \<and> legal maxPrimeFactor r
           \<and> (\<forall>k. minimum \<le> k \<and> k < r \<longrightarrow> \<not> legal maxPrimeFactor k)))
   \<and> findLegalDimension 100 7 = Inr 100 \<and> findLegalDimension 101 7 = Inr 105"
proof -
  have gen: "\<exists>r. findLegalDimension minimum maxPrimeFactor = Inr r \<and> minimum \<le> r \<and> r \<le> n
           \<and> legal maxPrimeFactor r
           \<and> (\<forall>k. minimum \<le> k \<and> k < r \<longrightarrow> \<not> legal maxPrimeFactor k)"
    if "maxPrimeFactor < INT_MAX" "1 \<le> minimum" "minimum \<le> n" "n \<le> INT_MAX"
      "legal maxPrimeFactor n" for n
  proof -
    have "findLegalDimension minimum maxPrimeFactor = legalLoop minimum maxPrimeFactor"
      using that(2) by (simp add: findLegalDimension_def)
    with legalLoop_least[OF that] show ?thesis by simp
  qed
  have two: "\<exists>r. findLegalDimension minimum maxPrimeFactor = Inr r \<and> minimum \<le> r
           \<and> legal maxPrimeFactor r
           \<and> (\<forall>k. minimum \<le> k \<and> k < r \<longrightarrow> \<not> legal maxPrimeFactor k)"
    if h: "2 \<le> maxPrimeFactor" "maxPrimeFactor < INT_MAX" "1 \<le> minimum" "minimum \<le> 2 ^ 30"
  proof -
    have "legal maxPrimeFactor (2 ^ 30)" using h(1) by (rule legal_power_of_two)
    moreover have "(2::int) ^ 30 \<le> INT_MAX" by (simp add: INT_MAX_def)
    ultimately show ?thesis using gen[of "2 ^ 30"] h by blast
  qed
  show ?thesis
    using gen[of n] two findLegalDimension_100 findLegalDimension_101 by blast
qed

text \<open>
  The theorem at \<open>(101, 7)\<close>, with the legal size 105 above the minimum, and at
  \<open>(1000, 13)\<close>.
\<close>

theorem findLegalDimension_least_witness:
  "(7::int) < INT_MAX \<and> legal 7 105
   \<and> (\<exists>r. findLegalDimension 101 7 = Inr r \<and> 101 \<le> r \<and> r \<le> 105 \<and> legal 7 r)
   \<and> (\<exists>r. findLegalDimension 1000 13 = Inr r \<and> 1000 \<le> r \<and> legal 13 r)"
proof -
  have a: "(7::int) < INT_MAX" "(13::int) < INT_MAX" "(105::int) \<le> INT_MAX"
    by (simp_all add: INT_MAX_def)
  have b: "legal 7 105"
    using factorLoop_legal[of 105 7] a factorLoop_values by simp
  show ?thesis
    using findLegalDimension_least [of 7 101 105] findLegalDimension_least [of 13 1000 0] a b
    by auto
qed

text \<open>
  Claim C3 as stated fails twice.  \<open>findLegalDimension(101, 7)\<close> returns 105 (which is
  3*5*7), not 108.  And not every \<open>maxPrimeFactor\<close> has a legal size: with
  \<open>maxPrimeFactor = 1\<close> no integer from 2 on is legal, and the search increments
  \<open>minimum\<close> until it overflows.
\<close>

theorem findLegalDimension_101_is_105:
  "findLegalDimension 101 7 = Inr 105 \<and> findLegalDimension 2 1 = Inl IntegerOverflow"
  using findLegalDimension_101 legalLoop_no_prime[of 1 2]
  by (simp add: findLegalDimension_def)

section \<open>Properties of single precision\<close>




text \<open>Not every charge is a float: 0.1 becomes 13421773 / 2^27.\<close>

lemma floor_log_tenth: "\<lfloor>log 2 (1 / 10 :: real)\<rfloor> = - 4"
proof -
  have p4: "(2::real) powr (- 4) = 1 / 16" and p3: "(2::real) powr (- 3) = 1 / 8"
    by (simp_all add: powr_minus divide_simps powr_numeral)
  have "(2::real) powr (- 4) \<le> 1 / 10" unfolding p4 by simp
  then have lo: "- 4 \<le> log 2 (1 / 10 :: real)" by (subst le_log_iff) simp_all
  have "(1 / 10 :: real) < 2 powr (- 3)" unfolding p3 by simp
  then have hi: "log 2 (1 / 10 :: real) < - 3" by (subst log_less_iff) simp_all
  show ?thesis using lo hi by (simp add: floor_eq_iff)
qed

lemma toFloat_tenth: "toFloat (1 / 10) = 13421773 / 134217728"
proof -
  have u: "(2::real) powr of_int (- 4 - 23) = 1 / 134217728"
    by (simp add: powr_minus divide_simps powr_numeral)
  have q: "(1 / 10) / (1 / 134217728) = (134217728 / 10 :: real)" by simp
  have r: "roundEven (134217728 / 10) = 13421773"
    by (simp add: roundEven_def Let_def)
  have "toFloat (1 / 10) = of_int (roundEven ((1 / 10) / 2 powr of_int (- 4 - 23))) * 2 powr of_int (- 4 - 23)"
    unfolding toFloat_def Let_def using floor_log_tenth by simp
  also have "\<dots> = of_int 13421773 * (1 / 134217728)" unfolding u q r ..
  finally show ?thesis by simp
qed




section \<open>Properties of the kernel\<close>

subsection \<open>The loops and the invariant\<close>

lemma findIndex_le: "findIndex x xs \<le> length xs"
  by (induction xs) auto

lemma findIndex_nth: "findIndex x xs < length xs \<Longrightarrow> xs ! findIndex x xs = x"
  by (induction xs) (auto split: if_splits)

lemma slotParameter_snoc:
  "slotParameter (cps @ [(param, s1, s2)]) slot =
     (if coupSlot s1 s2 = Inr (int slot) then Some param else slotParameter cps slot)"
  by (simp add: slotParameter_def Let_def)

lemma slotParameter_None:
  "slotParameter cps slot = None \<longleftrightarrow>
     (\<forall>c \<in> set cps. coupSlot (fst (snd c)) (snd (snd c)) \<noteq> Inr (int slot))"
  by (simp add: slotParameter_def Let_def filter_empty_conv case_prod_beta)

lemma slotsBound_step:
  assumes sb: "slotsBound cps names idx" and sl: "nat slot < length idx" "0 \<le> slot"
    and cs: "coupSlot s1 s2 = Inr slot"
  shows "slotsBound (cps @ [(param, s1, s2)])
           (if findIndex param names = length names then names @ [param] else names)
           (idx[nat slot := int (findIndex param names)])"
  unfolding slotsBound_def
proof (intro allI impI)
  fix t assume t: "t < length (idx[nat slot := int (findIndex param names)])"
  let ?names' = "if findIndex param names = length names then names @ [param] else names"
  let ?idx' = "idx[nat slot := int (findIndex param names)]"
  have grow: "i < length names \<Longrightarrow> ?names' ! i = names ! i \<and> i < length ?names'" for i
    by (simp add: nth_append)
  show "case slotParameter (cps @ [(param, s1, s2)]) t of
          None \<Rightarrow> ?idx' ! t = - 1
        | Some p \<Rightarrow> 0 \<le> ?idx' ! t \<and> nat (?idx' ! t) < length ?names' \<and> ?names' ! nat (?idx' ! t) = p"
  proof (cases "t = nat slot")
    case True
    then have b: "slotParameter (cps @ [(param, s1, s2)]) t = Some param"
      using cs sl by (simp add: slotParameter_snoc)
    have i: "?idx' ! t = int (findIndex param names)" using True sl by simp
    have "nat (int (findIndex param names)) < length ?names'
        \<and> ?names' ! nat (int (findIndex param names)) = param"
    proof (cases "findIndex param names = length names")
      case True then show ?thesis by simp
    next
      case False
      with findIndex_le[of param names] have "findIndex param names < length names" by simp
      with findIndex_nth[OF this] False show ?thesis by simp
    qed
    with b i show ?thesis by simp
  next
    case False
    then have "int t \<noteq> slot" using sl by auto
    then have b: "slotParameter (cps @ [(param, s1, s2)]) t = slotParameter cps t"
      using cs by (simp add: slotParameter_snoc)
    have i: "?idx' ! t = idx ! t" using False by simp
    from sb t have old: "case slotParameter cps t of
          None \<Rightarrow> idx ! t = - 1
        | Some p \<Rightarrow> 0 \<le> idx ! t \<and> nat (idx ! t) < length names \<and> names ! nat (idx ! t) = p"
      by (simp add: slotsBound_def)
    show ?thesis
    proof (cases "slotParameter cps t")
      case None
      with old b i show ?thesis by simp
    next
      case (Some p)
      with old have "0 \<le> idx ! t" "nat (idx ! t) < length names" "names ! nat (idx ! t) = p"
        by simp_all
      with grow[of "nat (idx ! t)"] b i Some show ?thesis by simp
    qed
  qed
qed

lemma coupLoop_inv:
  "slotsBound cps names idx \<Longrightarrow> length vals = length names \<Longrightarrow> \<forall>v \<in> set vals. v = 1 \<Longrightarrow>
   coupLoop rest (names, vals, idx) = Inr (names', vals', idx') \<Longrightarrow>
     slotsBound (cps @ rest) names' idx' \<and> length vals' = length names'
     \<and> (\<forall>v \<in> set vals'. v = 1) \<and> length idx' = length idx"
proof (induction rest arbitrary: cps names vals idx)
  case Nil
  then show ?case by simp
next
  case (Cons c rest)
  obtain param s1 s2 where c: "c = (param, s1, s2)" by (cases c)
  let ?i = "findIndex param names"
  let ?names = "if ?i = length names then names @ [param] else names"
  let ?vals = "if ?i = length names then vals @ [1] else vals"
  from Cons.prems(4) c obtain slot where slot: "coupSlot s1 s2 = Inr slot" "0 \<le> slot"
      "nat slot < length idx"
    and rest: "coupLoop rest (?names, ?vals, idx[nat slot := int ?i]) = Inr (names', vals', idx')"
    by (auto simp: Let_def split: sum.splits if_splits)
  have sb: "slotsBound (cps @ [(param, s1, s2)]) ?names (idx[nat slot := int ?i])"
    using Cons.prems(1) slot by (intro slotsBound_step) auto
  have lv: "length ?vals = length ?names" using Cons.prems(2) by simp
  have ones: "\<forall>v \<in> set ?vals. v = 1" using Cons.prems(3) by simp
  from Cons.IH[OF sb lv ones rest] c show ?case by simp
qed

lemma coupSlot_value:
  assumes "0 \<le> s1" "s1 < n" "0 \<le> s2" "s2 < n" "n \<le> 46340"
  shows "\<exists>slot. coupSlot s1 s2 = Inr slot \<and> 0 \<le> slot \<and> slot < tri n"
proof -
  have nn: "0 \<le> s2 * (s2 + 1)" using assms by simp
  have b: "s2 * (s2 + 1) \<le> 2147441940" using assms by (intro tri_bound) auto
  have t: "cdiv (s2 * (s2 + 1)) 2 = tri s2" using nn by (simp add: cdiv_nonneg tri_def)
  have "2 * tri s2 \<le> 2147441940" using b by (simp only: tri_double)
  then have tb: "tri s2 \<le> 1073720970" by simp
  have tn: "0 \<le> tri s2" using assms by (intro tri_nonneg) auto
  have f1: "fits_int (s2 + 1)" using assms by (simp add: fits_int_def INT_MAX_def INT_MIN_def)
  have f2: "fits_int (s2 * (s2 + 1))" using nn b unfolding fits_int_def INT_MAX_def INT_MIN_def by linarith
  have f3: "fits_int (tri s2 + s1)" using assms tb tn by (simp add: fits_int_def INT_MAX_def INT_MIN_def)
  have v: "coupSlot s1 s2 = Inr (tri s2 + s1)" unfolding coupSlot_def t using f1 f2 f3 by simp
  have "tri s2 + s1 < tri n"
  proof (cases "s1 \<le> s2")
    case True
    have "tri (s2 + 1) \<le> tri n" using assms by (intro tri_mono_step) auto
    then show ?thesis using True by (simp add: tri_Suc)
  next
    case False
    then have "tri s2 \<le> tri (s1 - 1)" using assms by (intro tri_mono_step) auto
    moreover have "tri (s1 - 1 + 1) = tri (s1 - 1) + (s1 - 1) + 1" by (rule tri_Suc)
    moreover have "tri s1 + s1 < tri n" using assms by (intro tri_strict) auto
    ultimately show ?thesis using assms by simp
  qed
  with v tn assms show ?thesis by simp
qed


lemma coupLoop_succeeds:
  "\<forall>c \<in> set rest. \<exists>slot. coupSlot (fst (snd c)) (snd (snd c)) = Inr slot \<and> 0 \<le> slot
       \<and> nat slot < length idx \<Longrightarrow>
   \<exists>st'. coupLoop rest (names, vals, idx) = Inr st'"
proof (induction rest arbitrary: names vals idx)
  case Nil
  then show ?case by simp
next
  case (Cons c rest)
  obtain param s1 s2 where c: "c = (param, s1, s2)" by (cases c)
  from Cons.prems c obtain slot where slot: "coupSlot s1 s2 = Inr slot" "0 \<le> slot"
    "nat slot < length idx" by auto
  let ?i = "findIndex param names"
  have "\<forall>c \<in> set rest. \<exists>slot'. coupSlot (fst (snd c)) (snd (snd c)) = Inr slot' \<and> 0 \<le> slot'
       \<and> nat slot' < length (idx[nat slot := int ?i])" using Cons.prems by simp
  from Cons.IH[OF this] c slot show ?case by (simp add: Let_def)
qed


lemma accumulateSquares_succeeds:
  "\<forall>i < n. 0 \<le> subsetVec ! i \<and> nat (subsetVec ! i) < length acc \<Longrightarrow>
     \<exists>r. accumulateSquares subsetVec charges n acc = Inr r \<and> length r = length acc"
proof (induction n)
  case 0
  then show ?case by simp
next
  case (Suc n)
  then obtain r where "accumulateSquares subsetVec charges n acc = Inr r" "length r = length acc"
    by auto
  with Suc.prems show ?case by (simp add: Let_def)
qed

lemma accumulateSquares_value:
  "accumulateSquares subsetVec charges n acc = Inr r \<Longrightarrow>
     length r = length acc
     \<and> (\<forall>j < length acc. r ! j = acc ! j
           + (\<Sum>i < n. if subsetVec ! i = int j then toFloat (charges ! i * charges ! i) else 0))"
proof (induction n arbitrary: r)
  case 0
  then show ?case by simp
next
  case (Suc n)
  from Suc.prems obtain a where a: "accumulateSquares subsetVec charges n acc = Inr a"
    and s: "0 \<le> subsetVec ! n" "nat (subsetVec ! n) < length a"
    and r: "r = a[nat (subsetVec ! n) := a ! nat (subsetVec ! n) + toFloat (charges ! n * charges ! n)]"
    by (auto simp: Let_def split: sum.splits if_splits)
  from Suc.IH[OF a] have ih: "length a = length acc"
    "\<And>j. j < length acc \<Longrightarrow> a ! j = acc ! j
           + (\<Sum>i < n. if subsetVec ! i = int j then toFloat (charges ! i * charges ! i) else 0)" by auto
  show ?case
  proof (intro conjI allI impI)
    show "length r = length acc" using r ih(1) by simp
    fix j assume j: "j < length acc"
    show "r ! j = acc ! j
           + (\<Sum>i < Suc n. if subsetVec ! i = int j then toFloat (charges ! i * charges ! i) else 0)"
    proof (cases "subsetVec ! n = int j")
      case True
      then have "nat (subsetVec ! n) = j" by simp
      with r j ih(1) have "r ! j = a ! j + toFloat (charges ! n * charges ! n)" by simp
      with ih(2)[OF j] True show ?thesis by simp
    next
      case False
      then have "nat (subsetVec ! n) \<noteq> j" using s(1) by auto
      with r have "r ! j = a ! j" by simp
      with ih(2)[OF j] False show ?thesis by simp
    qed
  qed
qed


lemma readParameters_props:
  "readParameters context names n (vals, b) = (vals', ch) \<Longrightarrow>
     length vals' = length vals
     \<and> (\<forall>i < n. i < length vals \<longrightarrow> vals' ! i = context (names ! i))
     \<and> (\<forall>i \<ge> n. vals' ! i = vals ! i)
     \<and> (\<not> ch \<longrightarrow> vals' = vals)"
proof (induction n arbitrary: vals' ch)
  case 0
  then show ?case by simp
next
  case (Suc n)
  obtain v c where vc: "readParameters context names n (vals, b) = (v, c)"
    by (cases "readParameters context names n (vals, b)")
  from Suc.IH[OF vc] have ih: "length v = length vals"
    "\<And>i. i < n \<Longrightarrow> i < length vals \<Longrightarrow> v ! i = context (names ! i)"
    "\<And>i. n \<le> i \<Longrightarrow> v ! i = vals ! i" "\<not> c \<Longrightarrow> v = vals" by auto
  show ?case
  proof (cases "context (names ! n) \<noteq> v ! n")
    case True
    with Suc.prems vc have r: "vals' = v[n := context (names ! n)]" "ch" by (simp_all add: Let_def)
    show ?thesis
    proof (intro conjI allI impI)
      show "length vals' = length vals" using r ih(1) by simp
      show "vals' = vals" if "\<not> ch" using that r(2) by simp
      fix i
      show "vals' ! i = context (names ! i)" if "i < Suc n" "i < length vals"
        using that r(1) ih(1) ih(2)[of i] by (cases "i = n") auto
      show "vals' ! i = vals ! i" if "Suc n \<le> i"
        using that r(1) ih(3)[of i] by simp
    qed
  next
    case False
    with Suc.prems vc have r: "vals' = v" "ch = c" by (simp_all add: Let_def)
    show ?thesis
    proof (intro conjI allI impI)
      show "length vals' = length vals" using r ih(1) by simp
      show "vals' = vals" if "\<not> ch" using that r ih(4) by simp
      fix i
      show "vals' ! i = context (names ! i)" if "i < Suc n" "i < length vals"
        using that r(1) False ih(2)[of i] by (cases "i = n") auto
      show "vals' ! i = vals ! i" if "Suc n \<le> i"
        using that r(1) ih(3)[of i] by simp
    qed
  qed
qed

lemma lambdaLoop_props:
  "length (lambdaLoop idx vals n lam) = length lam
   \<and> (\<forall>s < length lam. lambdaLoop idx vals n lam ! s
         = (if s < n \<and> idx ! s \<noteq> - 1 then vals ! nat (idx ! s) else lam ! s))"
proof (induction n)
  case 0
  then show ?case by simp
next
  case (Suc n)
  let ?l = "lambdaLoop idx vals n lam"
  from Suc have len: "length ?l = length lam"
    and ih: "\<And>s. s < length lam \<Longrightarrow> ?l ! s
         = (if s < n \<and> idx ! s \<noteq> - 1 then vals ! nat (idx ! s) else lam ! s)" by auto
  show ?case
  proof (cases "idx ! n \<noteq> - 1")
    case True
    then have eq: "lambdaLoop idx vals (Suc n) lam = ?l[n := vals ! nat (idx ! n)]"
      by (simp add: Let_def)
    show ?thesis
    proof (intro conjI allI impI)
      show "length (lambdaLoop idx vals (Suc n) lam) = length lam" using eq len by simp
      fix s assume s: "s < length lam"
      show "lambdaLoop idx vals (Suc n) lam ! s
         = (if s < Suc n \<and> idx ! s \<noteq> - 1 then vals ! nat (idx ! s) else lam ! s)"
      proof (cases "s = n")
        case True
        with eq len s \<open>idx ! n \<noteq> - 1\<close> show ?thesis by simp
      next
        case False
        with eq have "lambdaLoop idx vals (Suc n) lam ! s = ?l ! s" by simp
        with ih[OF s] False show ?thesis by (simp add: less_Suc_eq)
      qed
    qed
  next
    case False
    then have eq: "lambdaLoop idx vals (Suc n) lam = ?l" by (simp add: Let_def)
    show ?thesis
    proof (intro conjI allI impI)
      show "length (lambdaLoop idx vals (Suc n) lam) = length lam" using eq len by simp
      fix s assume s: "s < length lam"
      show "lambdaLoop idx vals (Suc n) lam ! s
         = (if s < Suc n \<and> idx ! s \<noteq> - 1 then vals ! nat (idx ! s) else lam ! s)"
        using eq ih[OF s] False by (cases "s = n") (auto simp: less_Suc_eq)
    qed
  qed
qed

lemma tri_cdiv: "cdiv (n * (n + 1)) 2 = tri n"
proof -
  have "0 \<le> n * (n + 1)"
  proof (cases "0 \<le> n")
    case True then show ?thesis by simp
  next
    case False
    then have "n \<le> 0" "n + 1 \<le> 0" by simp_all
    then show ?thesis by (rule mult_nonpos_nonpos)
  qed
  then show ?thesis by (simp add: cdiv_nonneg tri_def)
qed

lemma slotsBound_None:
  "slotsBound cps names idx \<Longrightarrow> slot < length idx \<Longrightarrow> slotParameter cps slot = None \<Longrightarrow>
     idx ! slot = - 1"
  unfolding slotsBound_def by (drule spec[of _ slot]) simp

lemma slotsBound_Some:
  "slotsBound cps names idx \<Longrightarrow> slot < length idx \<Longrightarrow> slotParameter cps slot = Some p \<Longrightarrow>
     0 \<le> idx ! slot \<and> nat (idx ! slot) < length names \<and> names ! nat (idx ! slot) = p"
  unfolding slotsBound_def by (drule spec[of _ slot]) simp

lemma slotsBound_empty: "slotsBound [] [] (replicate n (- 1))"
  by (simp add: slotsBound_def slotParameter_def)

lemma selfEnergyLoop_zeros: "n \<le> m \<Longrightarrow> selfEnergyLoop lam (replicate m 0) n = 0"
  by (induction n) simp_all

lemma initialize_Inr:
  assumes "initialize env fv = Inr k"
  shows "kernel_inv fv k \<and> recomputeParams k \<and> alpha k = pmeAlpha env
         \<and> exceptionPairs k = exceptionShare env fv
         \<and> pmeGrid1Initialized k = (contextIndex env = 0)
         \<and> (\<forall>slot < nat (numSlices k). sliceLambdaVec k ! slot = 1)
         \<and> hasOffsets k = (fvParticleOffsets fv \<noteq> [] \<or> fvExceptionOffsets fv \<noteq> [])
         \<and> sliceLambda k = uploadReal env (sliceLambdaVec k)"
proof -
  let ?n = "fvNumSubsets fv"
  let ?slices = "cdiv (?n * (?n + 1)) 2"
  from assms obtain names vals idx sq where
    cl: "coupLoop (fvCouplingParameters fv) ([], [], replicate (nat ?slices) (- 1)) = Inr (names, vals, idx)"
    and sq: "(if contextIndex env = 0
              then accumulateSquares (padTo (paddedNumAtoms env) 0 (map snd (fvParticles fv)))
                     (padTo (paddedNumAtoms env) 0 (map (\<lambda>p. toFloat (fst p)) (fvParticles fv)))
                     (length (fvParticles fv)) (replicate (nat ?n) 0)
              else Inr (replicate (nat ?n) 0)) = Inr sq"
    and k: "k = \<lparr>kNumSubsets = ?n, numSlices = ?slices, alpha = pmeAlpha env,
                 ewaldSelfEnergy = sum_list (if contextIndex env = 0
                              then scaleSelfEnergy env (pmeAlpha env) sq else sq),
                 subsetSelfEnergy = (if contextIndex env = 0
                              then scaleSelfEnergy env (pmeAlpha env) sq else sq),
                 hasOffsets = (length (fvParticleOffsets fv) > 0
                                         \<or> length (fvExceptionOffsets fv) > 0),
                 coupParamNames = names, coupParamValues = vals,
                 sliceCoupParamIndex = idx,
                 sliceLambdaVec = replicate (nat ?slices) 1,
                 sliceLambda = uploadReal env (replicate (nat ?slices) 1),
                 baseParticleCharges =
                   padTo (paddedNumAtoms env) 0 (map (\<lambda>p. toFloat (fst p)) (fvParticles fv)),
                 subsets = padTo (paddedNumAtoms env) 0 (map snd (fvParticles fv)),
                 paramNames = offsetParamNames env fv,
                 paramValues = replicate (length (offsetParamNames env fv)) 0,
                 recomputeParams = True,
                 exceptionPairs = exceptionShare env fv,
                 pmeGrid1Initialized = (contextIndex env = 0)\<rparr>"
    unfolding initialize_def Let_def
    by (auto split: if_splits sum.splits prod.splits)
  from coupLoop_inv[OF slotsBound_empty _ _ cl]
  have c: "slotsBound (fvCouplingParameters fv) names idx" "length vals = length names"
    "\<forall>v \<in> set vals. v = 1" "length idx = nat ?slices" by simp_all
  have lsq: "length sq = nat ?n"
  proof (cases "contextIndex env = 0")
    case True
    with sq accumulateSquares_value[of _ _ _ "replicate (nat ?n) 0" sq] show ?thesis by simp
  next
    case False with sq show ?thesis by auto
  qed
  have v1: "vals ! nat (idx ! slot) = 1" if "slot < nat (tri ?n)" "idx ! slot \<noteq> - 1" for slot
  proof (cases "slotParameter (fvCouplingParameters fv) slot")
    case None
    from slotsBound_None[OF c(1) _ None] c(4) that show ?thesis by (simp add: tri_cdiv)
  next
    case (Some p)
    from slotsBound_Some[OF c(1) _ Some] c(4) that(1) have "nat (idx ! slot) < length names"
      by (simp add: tri_cdiv)
    with c(2) have "vals ! nat (idx ! slot) \<in> set vals" by simp
    with c(3) show ?thesis by simp
  qed
  show ?thesis
    unfolding kernel_inv_def using c lsq v1
    by (simp add: k tri_cdiv scaleSelfEnergy_def)
qed


lemma execute_fields:
  fixes k env ctx f e d rc
  defines "r \<equiv> readParameters ctx (coupParamNames k) (length (coupParamNames k))
                  (coupParamValues k, False)"
  defines "lam \<equiv> (if snd r then lambdaLoop (sliceCoupParamIndex k) (fst r) (nat (numSlices k))
                                 (sliceLambdaVec k)
                  else sliceLambdaVec k)"
  defines "k' \<equiv> snd (execute env ctx f e d rc k)"
  shows "coupParamValues k' = fst r" and "sliceLambdaVec k' = lam"
    and "sliceLambda k' = (if snd r then uploadReal env lam else sliceLambda k)"
    and "kNumSubsets k' = kNumSubsets k" and "numSlices k' = numSlices k"
    and "sliceCoupParamIndex k' = sliceCoupParamIndex k" and "coupParamNames k' = coupParamNames k"
    and "subsetSelfEnergy k' = subsetSelfEnergy k" and "hasOffsets k' = hasOffsets k"
    and "pmeGrid1Initialized k' = pmeGrid1Initialized k" and "exceptionPairs k' = exceptionPairs k"
    and "alpha k' = alpha k" and "\<not> recomputeParams k'"
    and "recomputeParams k \<or> snd r \<Longrightarrow>
           ewaldSelfEnergy k' = selfEnergyLoop lam (subsetSelfEnergy k) (nat (kNumSubsets k))"
    and "\<not> recomputeParams k \<Longrightarrow> \<not> snd r \<Longrightarrow>
           ewaldSelfEnergy k' = ewaldSelfEnergy k
           \<or> ewaldSelfEnergy k' = selfEnergyLoop lam (subsetSelfEnergy k) (nat (kNumSubsets k))"
    and "fst (execute env ctx f e d rc k)
           = (if pmeGrid1Initialized k \<and> rc \<and> e \<and> \<not> hasOffsets k then ewaldSelfEnergy k' else 0)"
  unfolding k'_def lam_def r_def execute_def Let_def
  by (auto split: prod.splits)


lemma execute_inv:
  fixes env ctx f e d rc
  assumes inv: "kernel_inv fv k"
  defines "k' \<equiv> snd (execute env ctx f e d rc k)"
  shows "kernel_inv fv k'"
    and "\<forall>i < length (coupParamNames k'). coupParamValues k' ! i = ctx (coupParamNames k' ! i)"
    and "ewaldSelfEnergy k'
           = selfEnergyLoop (sliceLambdaVec k') (subsetSelfEnergy k') (nat (kNumSubsets k'))"
proof -
  define r where "r = readParameters ctx (coupParamNames k) (length (coupParamNames k))
                        (coupParamValues k, False)"
  define lam where "lam = (if snd r then lambdaLoop (sliceCoupParamIndex k) (fst r)
                                          (nat (numSlices k)) (sliceLambdaVec k)
                           else sliceLambdaVec k)"
  note flds = execute_fields[where k = k and env = env and ctx = ctx and f = f and e = e and d = d and rc = rc,
      folded r_def, folded lam_def, folded k'_def]
  from inv have i: "kNumSubsets k = fvNumSubsets fv" "numSlices k = tri (kNumSubsets k)"
    "length (sliceCoupParamIndex k) = nat (numSlices k)"
    "length (sliceLambdaVec k) = nat (numSlices k)"
    "length (coupParamValues k) = length (coupParamNames k)"
    "slotsBound (fvCouplingParameters fv) (coupParamNames k) (sliceCoupParamIndex k)"
    "\<And>slot. slot < nat (numSlices k) \<Longrightarrow> sliceLambdaVec k ! slot =
             (if sliceCoupParamIndex k ! slot = - 1 then 1
              else coupParamValues k ! nat (sliceCoupParamIndex k ! slot))"
    "length (subsetSelfEnergy k) = nat (kNumSubsets k)"
    "recomputeParams k \<or> ewaldSelfEnergy k
               = selfEnergyLoop (sliceLambdaVec k) (subsetSelfEnergy k) (nat (kNumSubsets k))"
    unfolding kernel_inv_def by blast+
  obtain vals ch where rv: "r = (vals, ch)" by (cases r)
  from readParameters_props[OF rv[unfolded r_def]] i(5)
  have rp: "length vals = length (coupParamNames k)"
    "\<And>j. j < length (coupParamNames k) \<Longrightarrow> vals ! j = ctx (coupParamNames k ! j)"
    "\<not> ch \<Longrightarrow> vals = coupParamValues k" by auto
  have llam: "length lam = nat (numSlices k)"
    unfolding lam_def using lambdaLoop_props[of "sliceCoupParamIndex k" "fst r" "nat (numSlices k)"
        "sliceLambdaVec k"] i(4) by simp
  have vlam: "lam ! slot = (if sliceCoupParamIndex k ! slot = - 1 then 1
              else vals ! nat (sliceCoupParamIndex k ! slot))" if sl: "slot < nat (numSlices k)" for slot
  proof (cases ch)
    case True
    then have "lam = lambdaLoop (sliceCoupParamIndex k) vals (nat (numSlices k)) (sliceLambdaVec k)"
      by (simp add: lam_def rv)
    with lambdaLoop_props[of "sliceCoupParamIndex k" vals "nat (numSlices k)" "sliceLambdaVec k"]
      sl i(4) i(7)[OF sl] show ?thesis by simp
  next
    case False
    then have "lam = sliceLambdaVec k" "vals = coupParamValues k" using rp(3) by (simp_all add: lam_def rv)
    with i(7)[OF sl] show ?thesis by simp
  qed
  have same: "lam = sliceLambdaVec k" if "\<not> ch" using that by (simp add: lam_def rv)
  have en: "ewaldSelfEnergy k' = selfEnergyLoop lam (subsetSelfEnergy k) (nat (kNumSubsets k))"
  proof (cases "recomputeParams k \<or> ch")
    case True
    then show ?thesis using flds(14) by (simp add: rv)
  next
    case False
    then have "\<not> recomputeParams k" "\<not> snd r" by (simp_all add: rv)
    from flds(15)[OF this] i(9) False same show ?thesis by auto
  qed
  show "kernel_inv fv k'"
    unfolding kernel_inv_def
    using flds(1-13) i llam vlam en rp(1) same by (simp add: rv)
  show "\<forall>i < length (coupParamNames k'). coupParamValues k' ! i = ctx (coupParamNames k' ! i)"
    using flds(1,7) rp(2) by (simp add: rv)
  show "ewaldSelfEnergy k'
           = selfEnergyLoop (sliceLambdaVec k') (subsetSelfEnergy k') (nat (kNumSubsets k'))"
    using en flds(2,4,8) by simp
qed

lemma copy_inv:
  assumes inv: "kernel_inv fv k"
  shows "kernel_inv fv (snd (copyParametersToContext env fv' k))"
proof -
  let ?n = "nat (kNumSubsets k)"
  have z: "selfEnergyLoop (sliceLambdaVec k) (replicate ?n 0) ?n = 0"
    by (rule selfEnergyLoop_zeros) simp
  have len: "length sq = ?n"
    if "accumulateSquares sv ch m (replicate ?n 0) = Inr sq" for sv ch m sq
    using accumulateSquares_value[OF that] by simp
  show ?thesis
    using inv z len unfolding kernel_inv_def copyParametersToContext_def Let_def
    by (auto simp: scaleSelfEnergy_def split: sum.splits)
qed

lemma initialized_inv: "initialized env fv k \<Longrightarrow> kernel_inv fv k"
proof (induction rule: initialized.induct)
  case (i_initialize k)
  then show ?case using initialize_Inr by blast
next
  case (i_execute k ctx f e d r)
  from i_execute.IH show ?case by (rule execute_inv(1))
next
  case (i_copy k fv')
  from i_copy.IH show ?case by (rule copy_inv)
qed

lemma initialized_static:
  "initialized env fv k \<Longrightarrow>
     pmeGrid1Initialized k = (contextIndex env = 0)
     \<and> hasOffsets k = (fvParticleOffsets fv \<noteq> [] \<or> fvExceptionOffsets fv \<noteq> [])
     \<and> alpha k = pmeAlpha env
     \<and> exceptionPairs k = exceptionShare env fv
     \<and> sliceLambda k = uploadReal env (sliceLambdaVec k)"
proof (induction rule: initialized.induct)
  case (i_initialize k)
  then show ?case using initialize_Inr by blast
next
  case (i_execute k ctx f e d r)
  then show ?case by (simp add: execute_fields)
next
  case (i_copy k fv')
  then show ?case
    by (auto simp: copyParametersToContext_def Let_def split: sum.splits)
qed

subsection \<open>The lambdas of the slices\<close>


lemma padTo_nth: "i < length xs \<Longrightarrow> padTo n x xs ! i = xs ! i"
  by (simp add: padTo_def nth_append)

lemma initialize_succeeds:
  assumes v: "view_ok env fv"
  shows "\<exists>k. initialize env fv = Inr k"
proof -
  let ?n = "fvNumSubsets fv"
  from v have n: "1 \<le> ?n" "?n \<le> 46340" by (simp_all add: view_ok_def)
  then have fit: "fits_int (?n + 1) \<and> fits_int (?n * (?n + 1))" by (intro product_fits) auto
  let ?idx = "replicate (nat (cdiv (?n * (?n + 1)) 2)) (- 1 :: int)"
  have "\<forall>c \<in> set (fvCouplingParameters fv). \<exists>slot. coupSlot (fst (snd c)) (snd (snd c)) = Inr slot
      \<and> 0 \<le> slot \<and> nat slot < length ?idx"
  proof
    fix c assume "c \<in> set (fvCouplingParameters fv)"
    with v have "0 \<le> fst (snd c)" "fst (snd c) < ?n" "0 \<le> snd (snd c)" "snd (snd c) < ?n"
      by (auto simp: view_ok_def)
    from coupSlot_value[OF this n(2)]
    show "\<exists>slot. coupSlot (fst (snd c)) (snd (snd c)) = Inr slot
      \<and> 0 \<le> slot \<and> nat slot < length ?idx" by (auto simp: tri_cdiv)
  qed
  from coupLoop_succeeds[OF this] obtain names vals idx where
    cl: "coupLoop (fvCouplingParameters fv) ([], [], ?idx) = Inr (names, vals, idx)"
    by (metis prod_cases3)
  let ?sv = "padTo (paddedNumAtoms env) 0 (map snd (fvParticles fv))"
  have "\<forall>i < length (fvParticles fv). 0 \<le> ?sv ! i \<and> nat (?sv ! i) < length (replicate (nat ?n) (0::real))"
  proof (intro allI impI)
    fix i assume i: "i < length (fvParticles fv)"
    then have "?sv ! i = snd (fvParticles fv ! i)" by (simp add: padTo_nth)
    moreover have "fvParticles fv ! i \<in> set (fvParticles fv)" using i by simp
    ultimately show "0 \<le> ?sv ! i \<and> nat (?sv ! i) < length (replicate (nat ?n) (0::real))"
      using v by (auto simp: view_ok_def)
  qed
  from accumulateSquares_succeeds[OF this]
  obtain sq where sq: "accumulateSquares ?sv (padTo (paddedNumAtoms env) 0 (map (\<lambda>p. toFloat (fst p)) (fvParticles fv)))
      (length (fvParticles fv)) (replicate (nat ?n) 0) = Inr sq" by blast
  show ?thesis
    unfolding initialize_def Let_def using fit cl sq by simp
qed







text \<open>
  The theorem on a force with two subsets, and on the example kernel, in single precision,
  after an evaluation with \<open>lambda = 0.5\<close>: three lambdas, and the two diagonal slices
  still at 1.0.
\<close>

lemma demo_view_ok: "view_ok demoEnv demoView"
  by (simp add: view_ok_def demoEnv_def demoView_def)

lemma demo_initialize: "initialize demoEnv demoView = Inr (projr (initialize demoEnv demoView))"
  using initialize_succeeds[OF demo_view_ok] by auto















subsection \<open>The reported reciprocal energy\<close>





subsection \<open>Updating the parameters of a context\<close>

lemma pairsChanged_iff: "length ps = length qs \<Longrightarrow> pairsChanged ps qs \<longleftrightarrow> ps \<noteq> qs"
  by (induction rule: list_induct2) auto

lemma copy_particles:
  "int (length (fvParticles fv')) \<noteq> numAtoms env \<Longrightarrow>
     copyParametersToContext env fv' k = (Inl ParticlesChanged, k)"
  by (simp add: copyParametersToContext_def)

lemma copy_exceptions:
  assumes "int (length (fvParticles fv')) = numAtoms env" "exceptionShare env fv' \<noteq> exceptionPairs k"
  shows "fst (copyParametersToContext env fv' k) = Inl ExceptionsChanged"
proof (cases "length (exceptionShare env fv') = length (exceptionPairs k)")
  case True
  then have "pairsChanged (exceptionPairs k) (exceptionShare env fv')"
    using assms(2) pairsChanged_iff[of "exceptionPairs k" "exceptionShare env fv'"] by auto
  with assms(1) True show ?thesis by (simp add: copyParametersToContext_def Let_def)
next
  case False
  with assms(1) show ?thesis by (simp add: copyParametersToContext_def)
qed

lemma copy_succeeds:
  assumes "int (length (fvParticles fv')) = numAtoms env" "exceptionShare env fv' = exceptionPairs k"
    and "\<forall>p \<in> set (fvParticles fv'). 0 \<le> snd p \<and> snd p < kNumSubsets k"
  shows "fst (copyParametersToContext env fv' k) = Inr ()"
proof -
  have n: "nat (numAtoms env) = length (fvParticles fv')" using assms(1) by simp
  have np: "\<not> pairsChanged (exceptionPairs k) (exceptionShare env fv')"
    using assms(2) pairsChanged_iff[of "exceptionPairs k" "exceptionShare env fv'"] by simp
  have "\<forall>i < nat (numAtoms env).
          0 \<le> padTo (paddedNumAtoms env) 0 (map snd (fvParticles fv')) ! i
          \<and> nat (padTo (paddedNumAtoms env) 0 (map snd (fvParticles fv')) ! i)
              < length (replicate (nat (kNumSubsets k)) (0::real))"
  proof (intro allI impI)
    fix i assume "i < nat (numAtoms env)"
    then have i: "i < length (fvParticles fv')" using n by simp
    then have "fvParticles fv' ! i \<in> set (fvParticles fv')" by simp
    with assms(3) have "0 \<le> snd (fvParticles fv' ! i) \<and> snd (fvParticles fv' ! i) < kNumSubsets k"
      by blast
    with i show "0 \<le> padTo (paddedNumAtoms env) 0 (map snd (fvParticles fv')) ! i
          \<and> nat (padTo (paddedNumAtoms env) 0 (map snd (fvParticles fv')) ! i)
              < length (replicate (nat (kNumSubsets k)) (0::real))"
      by (simp add: padTo_nth)
  qed
  from accumulateSquares_succeeds[OF this]
  obtain r where "accumulateSquares (padTo (paddedNumAtoms env) 0 (map snd (fvParticles fv')))
       (padTo (paddedNumAtoms env) 0 (map (\<lambda>p. toFloat (fst p)) (fvParticles fv'))) (nat (numAtoms env))
       (replicate (nat (kNumSubsets k)) 0) = Inr r" by blast
  with assms(1,2) np show ?thesis by (simp add: copyParametersToContext_def Let_def)
qed

lemma take_drop_map:
  "s + m \<le> length ys \<Longrightarrow> map (\<lambda>k. ys ! (s + k)) [0 ..< m] = take m (drop s ys)"
  by (rule nth_equalityI) simp_all

lemma share_bounds:
  assumes "c < n"
  shows "c * L div n \<le> (c + 1) * L div n" "(c + 1) * L div n \<le> (L::nat)"
proof -
  show "c * L div n \<le> (c + 1) * L div n" by (rule div_le_mono) simp
  have "(c + 1) * L \<le> n * L" using assms by (intro mult_le_mono1) simp
  then have "(c + 1) * L div n \<le> n * L div n" by (rule div_le_mono)
  also have "\<dots> = L" using assms by simp
  finally show "(c + 1) * L div n \<le> L" .
qed

lemma exceptionShare_alt:
  assumes "contextIndex env < numContexts env"
  shows "exceptionShare env fv = shareOf (numContexts env) (contextIndex env) (nonExcludedPairs fv)"
proof -
  let ?L = "length (nonExcluded fv)"
  let ?s = "contextIndex env * ?L div numContexts env"
  let ?e = "(contextIndex env + 1) * ?L div numContexts env"
  from share_bounds[OF assms, of ?L] have b: "?s \<le> ?e" "?e \<le> ?L" .
  have "exceptionShare env fv
          = map (\<lambda>k. nonExcludedPairs fv ! (?s + k)) [0 ..< ?e - ?s]"
    using b by (simp add: exceptionShare_def Let_def startIndex_def endIndex_def
        nonExcludedPairs_def)
  also have "\<dots> = take (?e - ?s) (drop ?s (nonExcludedPairs fv))"
    using b by (intro take_drop_map) (simp add: nonExcludedPairs_def)
  finally show ?thesis by (simp add: shareOf_def nonExcludedPairs_def)
qed

lemma shares_concat:
  "m \<le> n \<Longrightarrow> concat (map (\<lambda>c. shareOf n c ys) [0 ..< m]) = take (m * length ys div n) ys"
proof (induction m)
  case 0
  then show ?case by simp
next
  case (Suc m)
  then have "m < n" by simp
  from share_bounds(1)[OF this, of "length ys"]
  have "(m + 1) * length ys div n
          = m * length ys div n + ((m + 1) * length ys div n - m * length ys div n)" by simp
  then have "take ((m + 1) * length ys div n) ys
          = take (m * length ys div n) ys @ shareOf n m ys"
    unfolding shareOf_def by (metis take_add)
  with Suc show ?case by simp
qed

lemma shares_determine:
  assumes "1 \<le> n" "\<forall>c < n. shareOf n c ys = shareOf n c zs"
  shows "ys = zs"
proof -
  have "concat (map (\<lambda>c. shareOf n c ys) [0 ..< n]) = concat (map (\<lambda>c. shareOf n c zs) [0 ..< n])"
    using assms(2) by (intro arg_cong[where f = concat] map_cong) simp_all
  moreover have "\<And>xs. concat (map (\<lambda>c. shareOf n c xs) [0 ..< n]) = xs"
    using assms(1) by (simp add: shares_concat)
  ultimately show ?thesis by simp
qed

lemma some_share_differs:
  assumes "1 \<le> numContexts env" "nonExcludedPairs fv' \<noteq> nonExcludedPairs fv"
  shows "\<exists>c < numContexts env.
           exceptionShare (env\<lparr>contextIndex := c\<rparr>) fv' \<noteq> exceptionShare (env\<lparr>contextIndex := c\<rparr>) fv"
proof (rule ccontr)
  assume "\<not> ?thesis"
  then have "\<forall>c < numContexts env.
           shareOf (numContexts env) c (nonExcludedPairs fv')
             = shareOf (numContexts env) c (nonExcludedPairs fv)"
    using exceptionShare_alt[of "env\<lparr>contextIndex := c\<rparr>" for c] by simp
  from shares_determine[OF assms(1) this] assms(2) show False by simp
qed

lemma single_share:
  assumes "numContexts env = 1" "contextIndex env = 0"
  shows "exceptionShare env fv = nonExcludedPairs fv"
  using exceptionShare_alt[of env fv] assms by (simp add: shareOf_def)

text \<open>
  Claim C8.  \<open>copyParametersToContext\<close> throws, and leaves the kernel as it was, when
  the number of particles of the force is not the number of atoms of the context.  In
  every state of a kernel it throws when the particle pairs of the non-excluded exceptions
  (non-zero \<open>chargeProd\<close>, or a charge offset) that belong to the device context are not
  the ones recorded by \<open>initialize\<close>, be it in number or in a pair; and it accepts a
  force with the same number of particles, the same pairs and valid subsets, whatever the
  charges and charge products are.  On a single device context the pairs compared are
  those of all non-excluded exceptions; on several, when the pairs of the non-excluded
  exceptions differ, the part of at least one device context differs.
\<close>

theorem copyParameters_checks:
  "(int (length (fvParticles fv')) \<noteq> numAtoms env \<longrightarrow>
      copyParametersToContext env fv' k = (Inl ParticlesChanged, k))
   \<and> (initialized env fv k \<and> int (length (fvParticles fv')) = numAtoms env
        \<and> exceptionShare env fv' \<noteq> exceptionShare env fv \<longrightarrow>
      fst (copyParametersToContext env fv' k) = Inl ExceptionsChanged)
   \<and> (initialized env fv k \<and> int (length (fvParticles fv')) = numAtoms env
        \<and> exceptionShare env fv' = exceptionShare env fv
        \<and> (\<forall>p \<in> set (fvParticles fv'). 0 \<le> snd p \<and> snd p < fvNumSubsets fv) \<longrightarrow>
      fst (copyParametersToContext env fv' k) = Inr ())
   \<and> (numContexts env = 1 \<and> contextIndex env = 0 \<longrightarrow>
        exceptionShare env fv = nonExcludedPairs fv)
   \<and> (1 \<le> numContexts env \<and> nonExcludedPairs fv' \<noteq> nonExcludedPairs fv \<longrightarrow>
        (\<exists>c < numContexts env.
           exceptionShare (env\<lparr>contextIndex := c\<rparr>) fv'
             \<noteq> exceptionShare (env\<lparr>contextIndex := c\<rparr>) fv))"
proof (intro conjI impI)
  assume "int (length (fvParticles fv')) \<noteq> numAtoms env"
  then show "copyParametersToContext env fv' k = (Inl ParticlesChanged, k)"
    by (rule copy_particles)
next
  assume a: "initialized env fv k \<and> int (length (fvParticles fv')) = numAtoms env
        \<and> exceptionShare env fv' \<noteq> exceptionShare env fv"
  then have "exceptionPairs k = exceptionShare env fv" using initialized_static by blast
  with a show "fst (copyParametersToContext env fv' k) = Inl ExceptionsChanged"
    by (intro copy_exceptions) simp_all
next
  assume a: "initialized env fv k \<and> int (length (fvParticles fv')) = numAtoms env
        \<and> exceptionShare env fv' = exceptionShare env fv
        \<and> (\<forall>p \<in> set (fvParticles fv'). 0 \<le> snd p \<and> snd p < fvNumSubsets fv)"
  then have "exceptionPairs k = exceptionShare env fv" using initialized_static by blast
  moreover from a have "kernel_inv fv k" using initialized_inv by blast
  then have "kNumSubsets k = fvNumSubsets fv" unfolding kernel_inv_def by blast
  ultimately show "fst (copyParametersToContext env fv' k) = Inr ()"
    using a by (intro copy_succeeds) simp_all
next
  assume "numContexts env = 1 \<and> contextIndex env = 0"
  then show "exceptionShare env fv = nonExcludedPairs fv" using single_share by blast
next
  assume "1 \<le> numContexts env \<and> nonExcludedPairs fv' \<noteq> nonExcludedPairs fv"
  then show "\<exists>c < numContexts env.
           exceptionShare (env\<lparr>contextIndex := c\<rparr>) fv'
             \<noteq> exceptionShare (env\<lparr>contextIndex := c\<rparr>) fv"
    using some_share_differs by blast
qed

text \<open>
  The theorem on the example kernel: a force with one particle less, one with the
  particles of the exception swapped and one with the exception excluded are refused, and
  one with other charges and another charge product is accepted.
\<close>

lemma demo_shares:
  "exceptionShare demoEnv demoView = [(0, 1)]"
  "exceptionShare demoEnv demoSwapped = [(1, 0)]"
  "exceptionShare demoEnv demoExcluded = []"
  "exceptionShare demoEnv demoScaled = [(0, 1)]"
  by (simp_all add: exceptionShare_def nonExcluded_def startIndex_def endIndex_def Let_def
      demoEnv_def demoView_def demoSwapped_def demoExcluded_def demoScaled_def)

lemma demo_pairs:
  "nonExcludedPairs demoView = [(0, 1)]" "nonExcludedPairs demoExcluded = []"
  by (simp_all add: nonExcludedPairs_def nonExcluded_def demoView_def demoExcluded_def)

theorem copyParameters_checks_witness:
  "copyParametersToContext demoEnv demoFewer (projr (initialize demoEnv demoView))
     = (Inl ParticlesChanged, projr (initialize demoEnv demoView))
   \<and> fst (copyParametersToContext demoEnv demoSwapped (projr (initialize demoEnv demoView)))
       = Inl ExceptionsChanged
   \<and> fst (copyParametersToContext demoEnv demoExcluded (projr (initialize demoEnv demoView)))
       = Inl ExceptionsChanged
   \<and> fst (copyParametersToContext demoEnv demoScaled (projr (initialize demoEnv demoView)))
       = Inr ()
   \<and> exceptionShare demoEnv demoView = nonExcludedPairs demoView
   \<and> (\<exists>c < numContexts demoEnv.
         exceptionShare (demoEnv\<lparr>contextIndex := c\<rparr>) demoExcluded
           \<noteq> exceptionShare (demoEnv\<lparr>contextIndex := c\<rparr>) demoView)"
proof -
  define K where "K = projr (initialize demoEnv demoView)"
  have "initialize demoEnv demoView = Inr K" unfolding K_def by (rule demo_initialize)
  then have i: "initialized demoEnv demoView K" by (rule initialized.intros(1))
  have e: "numAtoms demoEnv = 2" "numContexts demoEnv = 1" "contextIndex demoEnv = 0"
    by (simp_all add: demoEnv_def)
  have p: "fvParticles demoFewer = [(1, 0)]" "fvParticles demoSwapped = [(1, 0), (- 1, 1)]"
    "fvParticles demoExcluded = [(1, 0), (- 1, 1)]" "fvParticles demoScaled = [(2, 0), (- 1, 1)]"
    "fvNumSubsets demoView = 2"
    by (simp_all add: demoFewer_def demoSwapped_def demoExcluded_def demoScaled_def demoView_def)
  have c1: "copyParametersToContext demoEnv demoFewer K = (Inl ParticlesChanged, K)"
    using copyParameters_checks [of demoFewer demoEnv K demoView] e p by simp
  have c2: "fst (copyParametersToContext demoEnv demoSwapped K) = Inl ExceptionsChanged"
    using copyParameters_checks [of demoSwapped demoEnv K demoView] i e p demo_shares
    by simp
  have c3: "fst (copyParametersToContext demoEnv demoExcluded K) = Inl ExceptionsChanged"
    using copyParameters_checks [of demoExcluded demoEnv K demoView] i e p demo_shares
    by simp
  have c4: "fst (copyParametersToContext demoEnv demoScaled K) = Inr ()"
    using copyParameters_checks [of demoScaled demoEnv K demoView] i e p demo_shares
    by simp
  have c5: "exceptionShare demoEnv demoView = nonExcludedPairs demoView"
    using copyParameters_checks [of demoExcluded demoEnv K demoView] e by blast
  have c6: "\<exists>c < numContexts demoEnv.
         exceptionShare (demoEnv\<lparr>contextIndex := c\<rparr>) demoExcluded
           \<noteq> exceptionShare (demoEnv\<lparr>contextIndex := c\<rparr>) demoView"
    using copyParameters_checks [of demoExcluded demoEnv K demoView] e demo_pairs
    by simp
  show ?thesis using c1 c2 c3 c4 c5 c6 unfolding K_def by blast
qed

subsection \<open>The self energy\<close>





















end
